theory Spec2Isabelle
  imports
    Main
    "HOL-Library.Sublist"
    "HOL-Library.Multiset"
    "HOL-Library.Char_ord"
    "HOL-Library.List_Lexorder"
begin

section \<open>C strings\<close>

text \<open>
  A value of type \<open>string\<close> stands for the bytes of a C string before its terminating
  NUL, so the terminator itself is never an element of the list. A \<open>const char *\<close> that
  may be \<open>NULL\<close> is a \<open>string option\<close>, with \<open>None\<close> for the null pointer. A pointer into
  a string is the suffix that starts at the pointed byte.
\<close>

text \<open>\<open>strstr(haystack, needle)\<close>: the suffix at the first occurrence, or \<open>NULL\<close>.\<close>

fun strstr :: "string \<Rightarrow> string \<Rightarrow> string option" where
  "strstr [] needle = (if needle = [] then Some [] else None)"
| "strstr (c # cs) needle =
     (if prefix needle (c # cs) then Some (c # cs) else strstr cs needle)"

text \<open>\<open>strchr(s, c)\<close> for a byte \<open>c\<close> other than NUL: the suffix at the first \<open>c\<close>.\<close>

fun strchr :: "string \<Rightarrow> char \<Rightarrow> string option" where
  "strchr [] c = None"
| "strchr (x # xs) c = (if x = c then Some (x # xs) else strchr xs c)"

text \<open>
  \<open>strcmp\<close> compares byte by byte as \<open>unsigned char\<close>; the C standard fixes only the sign
  of the result, which is what the model returns.
\<close>

fun strcmp :: "string \<Rightarrow> string \<Rightarrow> int" where
  "strcmp [] [] = 0"
| "strcmp [] (y # ys) = - 1"
| "strcmp (x # xs) [] = 1"
| "strcmp (x # xs) (y # ys) =
     (if x = y then strcmp xs ys
      else if (of_char x :: nat) < of_char y then - 1 else 1)"

text \<open>
  \<open>strspn\<close> and \<open>strcspn\<close>: the length of the longest prefix made only of bytes in
  (respectively not in) the delimiter set.
\<close>

definition strspn :: "string \<Rightarrow> string \<Rightarrow> nat" where
  "strspn s accept = length (takeWhile (\<lambda>c. c \<in> set accept) s)"

definition strcspn :: "string \<Rightarrow> string \<Rightarrow> nat" where
  "strcspn s reject = length (takeWhile (\<lambda>c. c \<notin> set reject) s)"

text \<open>
  \<open>safe_strncpy(dest, src, dest_size)\<close> copies while \<open>i < dest_size - 1\<close> and the source
  has bytes left, terminates \<open>dest\<close>, and returns the number of bytes copied. The result
  is the new content of \<open>dest\<close> with that count. \<open>dest_size\<close> is a 64-bit \<open>size_t\<close>, so
  \<open>dest_size - 1\<close> wraps around to \<open>2 ^ 64 - 1\<close> at zero.
\<close>

definition safe_strncpy :: "string \<Rightarrow> nat \<Rightarrow> string \<times> nat" where
  "safe_strncpy src dest_size =
     (let bound = (if dest_size = 0 then 2 ^ 64 - 1 else dest_size - 1);
          dest = take bound src
      in (dest, length dest))"

text \<open>
  \<open>safe_strtok(str, delim, saveptr)\<close> returns the token (or \<open>NULL\<close>) together with the
  new value of \<open>*saveptr\<close>. Writing NUL over the delimiter at \<open>end\<close> cuts the token off
  from the text behind it; \<open>*saveptr\<close> is the suffix behind that byte. On the two
  \<open>NULL\<close> returns \<open>*saveptr\<close> is left as it was.
\<close>

definition safe_strtok ::
  "string option \<Rightarrow> string \<Rightarrow> string option \<Rightarrow> string option \<times> string option" where
  "safe_strtok str delim saveptr =
     (let str0 = (case str of None \<Rightarrow> saveptr | Some s \<Rightarrow> Some s)
      in case str0 of
           None \<Rightarrow> (None, saveptr)
         | Some s0 \<Rightarrow>
             if s0 = [] then (None, saveptr)
             else
               (let s1 = drop (strspn s0 delim) s0
                in if s1 = [] then (None, saveptr)
                   else
                     (let n = strcspn s1 delim;
                          end = drop n s1;
                          end' = (if end \<noteq> [] then tl end else end)
                      in (Some (take n s1), Some end'))))"

section \<open>Constants\<close>

definition MAX_PARAM_LEN :: nat where
  "MAX_PARAM_LEN = 512"

definition INITIAL_CAPACITY :: int where
  "INITIAL_CAPACITY = 1024"

definition MAX_DOMAIN_LEN :: nat where
  "MAX_DOMAIN_LEN = 253"

definition max_c :: "int \<Rightarrow> int \<Rightarrow> int" where
  "max_c a b = (if a > b then a else b)"

text \<open>The range of the 32-bit \<open>int\<close> of the platform.\<close>

definition INT_MAX :: int where
  "INT_MAX = 2147483647"

definition INT_MIN :: int where
  "INT_MIN = - 2147483648"

section \<open>Growable arrays\<close>

text \<open>
  Where the behaviour of the C program is undefined the model stops with a fault: the
  product \<open>capacity * 2\<close> leaves the range of \<open>int\<close>, or an entry is written outside
  the array.
\<close>

datatype fault = Overflow | OutOfBounds

text \<open>
  The step before an append, which \<open>add_url\<close> (lines 125 to 130) and \<open>process_domain\<close>
  (lines 325 to 329) both have, for the count \<open>n\<close> of entries: when \<open>n\<close> equals the
  capacity, the capacity becomes \<open>max(capacity * 2, INITIAL_CAPACITY)\<close>. The entry is
  then written at index \<open>n\<close>. The result is the new capacity.
\<close>

definition grow :: "int \<Rightarrow> int \<Rightarrow> fault + int" where
  "grow n cap =
     (if n = cap then
        (if cap * 2 > INT_MAX \<or> cap * 2 < INT_MIN then Inl Overflow
         else Inr (max_c (cap * 2) INITIAL_CAPACITY))
      else if n > cap then Inl OutOfBounds
      else Inr cap)"

section \<open>The set of URLs already seen\<close>

text \<open>
  \<open>URLSet\<close>: the list \<open>urls\<close> holds the \<open>count\<close> initialised entries of the array, in
  array order, so \<open>count\<close> is its length. Memory allocation is taken to succeed: on a
  failed \<open>realloc\<close> or \<open>strdup\<close> the program exits at once and writes no report.
\<close>

record URLSet =
  urls :: "string list"
  capacity :: int

definition empty_set :: URLSet where
  "empty_set = \<lparr>urls = [], capacity = 0\<rparr>"

text \<open>The scan \<open>for (i = 0; i < set->count; ++i) if (strcmp(set->urls[i], url) == 0) return 0\<close>.\<close>

fun scan_urls :: "string list \<Rightarrow> string \<Rightarrow> bool" where
  "scan_urls [] url = False"
| "scan_urls (u # us) url = (if strcmp u url = 0 then True else scan_urls us url)"

text \<open>\<open>add_url\<close>: the return value with the set as the call leaves it, or a fault.\<close>

definition add_url :: "URLSet \<Rightarrow> string option \<Rightarrow> fault + int \<times> URLSet" where
  "add_url uset url =
     (case url of
        None \<Rightarrow> Inr (0, uset)
      | Some u \<Rightarrow>
          if u = [] then Inr (0, uset)
          else if scan_urls (urls uset) u then Inr (0, uset)
          else
            (case grow (int (length (urls uset))) (capacity uset) of
               Inl f \<Rightarrow> Inl f
             | Inr cap1 \<Rightarrow> Inr (1, uset\<lparr>urls := urls uset @ [u], capacity := cap1\<rparr>)))"

text \<open>
  Feeding a sequence of URLs to the set, collecting the return values; the first fault
  ends it.
\<close>

fun feed :: "URLSet \<Rightarrow> string option list \<Rightarrow> fault + int list \<times> URLSet" where
  "feed uset [] = Inr ([], uset)"
| "feed uset (u # us) =
     (case add_url uset u of
        Inl f \<Rightarrow> Inl f
      | Inr (r, uset1) \<Rightarrow>
          (case feed uset1 us of
             Inl f \<Rightarrow> Inl f
           | Inr (rs, uset2) \<Rightarrow> Inr (r # rs, uset2)))"

section \<open>Method inference\<close>

text \<open>
  \<open>infer_method\<close> returns one of four string literals. A pointer returned by \<open>strstr\<close>
  is used as a truth value: it counts as true when it is not \<open>NULL\<close>.
\<close>

definition found :: "string option \<Rightarrow> bool" where
  "found p = (p \<noteq> None)"

definition infer_method :: "string option \<Rightarrow> string option \<Rightarrow> string" where
  "infer_method url mimetype =
     (case url of
        None \<Rightarrow> ''GET''
      | Some u \<Rightarrow>
          (let m = (case mimetype of Some mt \<Rightarrow> mt | None \<Rightarrow> '''');
               has_post =
                 (found (strstr u ''login'') \<or> found (strstr u ''submit'') \<or>
                  found (strstr u ''upload'') \<or> found (strstr u ''create'') \<or>
                  found (strstr u ''update'') \<or> found (strstr u ''delete'') \<or>
                  found (strstr u ''api'') \<or> found (strstr u ''json'') \<or>
                  found (strstr u ''graphql'') \<or>
                  found (strstr m ''json'') \<or> found (strstr m ''xml'') \<or>
                  found (strstr m ''form''))
           in if has_post then
                (if found (strstr u ''update'') \<or> found (strstr u ''patch'') then ''PUT''
                 else if found (strstr u ''delete'') \<or> found (strstr u ''remove'')
                   then ''DELETE''
                 else ''POST'')
              else ''GET''))"

section \<open>Parameter extraction\<close>

record Endpoint =
  url :: string
  "method" :: string
  params :: "string list"

text \<open>
  The body of \<open>while (token)\<close>: cut the token at its first \<open>=\<close>, keep it when it is not
  empty, fetch the next token. \<open>params\<close> with \<open>param_count\<close> is the list of names so far.
\<close>

definition cut_at_eq :: "string \<Rightarrow> string" where
  "cut_at_eq token =
     (case strchr token (CHR ''='') of
        None \<Rightarrow> token
      | Some eq \<Rightarrow> take (length token - length eq) token)"

function token_loop ::
  "string option \<Rightarrow> string option \<Rightarrow> string list \<Rightarrow> string list" where
  "token_loop token saveptr ps =
     (case token of
        None \<Rightarrow> ps
      | Some t \<Rightarrow>
          (let name = cut_at_eq t;
               ps1 = (if name \<noteq> [] then ps @ [name] else ps);
               next = safe_strtok None ''&'' saveptr
           in token_loop (fst next) (snd next) ps1))"
  by pat_completeness auto
termination
proof (relation "measure (\<lambda>(token, saveptr, ps).
         case token of None \<Rightarrow> 0
         | Some t \<Rightarrow> Suc (case saveptr of None \<Rightarrow> 0 | Some s \<Rightarrow> length s))")
  show "wf (measure (\<lambda>(token, saveptr, ps).
         case token of None \<Rightarrow> 0
         | Some t \<Rightarrow> Suc (case saveptr of None \<Rightarrow> 0 | Some s \<Rightarrow> length s)))"
    by simp
next
  fix token :: "string option" and saveptr :: "string option" and ps :: "string list"
    and t name ps1 nxt
  assume tok: "token = Some t" and nxt: "nxt = safe_strtok None ''&'' saveptr"
  have resume: "safe_strtok None delim (Some s) =
     (if dropWhile (\<lambda>c. c \<in> set delim) s = [] then (None, Some s)
      else (Some (takeWhile (\<lambda>c. c \<notin> set delim) (dropWhile (\<lambda>c. c \<in> set delim) s)),
            Some (tl (dropWhile (\<lambda>c. c \<notin> set delim)
                   (dropWhile (\<lambda>c. c \<in> set delim) s)))))" for delim s
  proof -
    have a: "drop (strspn s delim) s = dropWhile (\<lambda>c. c \<in> set delim) s"
      by (simp add: strspn_def dropWhile_eq_drop)
    have b: "drop (strcspn u delim) u = dropWhile (\<lambda>c. c \<notin> set delim) u" for u
      by (simp add: strcspn_def dropWhile_eq_drop)
    have c: "take (strcspn u delim) u = takeWhile (\<lambda>c. c \<notin> set delim) u" for u
      by (simp add: strcspn_def takeWhile_eq_take [symmetric])
    have d: "(if e \<noteq> [] then tl e else e) = tl e" for e :: string
      by simp
    show ?thesis
      unfolding safe_strtok_def Let_def option.case a b c d
      by (cases s) simp_all
  qed
  have shorter: "length r < length s"
    if eq: "safe_strtok None ''&'' (Some s) = (Some tk, Some r)" for s tk r
  proof -
    define s1 where "s1 = dropWhile (\<lambda>c. c \<in> set ''&'') s"
    define e where "e = dropWhile (\<lambda>c. c \<notin> set ''&'') s1"
    from eq have ne: "s1 \<noteq> []" and r: "r = tl e"
      unfolding resume s1_def [symmetric] e_def [symmetric]
      by (simp_all split: if_splits)
    from ne obtain x xs where s1: "s1 = x # xs"
      by (cases s1) auto
    have "\<not> (hd s1 \<in> set ''&'')"
      using ne unfolding s1_def by (rule hd_dropWhile)
    with s1 have "e = dropWhile (\<lambda>c. c \<notin> set ''&'') xs"
      by (simp add: e_def)
    then have "length e \<le> length xs"
      by (simp add: length_dropWhile_le)
    then have "length e < length s1"
      using s1 by simp
    moreover have "length s1 \<le> length s"
      unfolding s1_def by (rule length_dropWhile_le)
    moreover have "length r \<le> length e"
      using r by simp
    ultimately show ?thesis by linarith
  qed
  show "((fst nxt, snd nxt, ps1), (token, saveptr, ps)) \<in> measure (\<lambda>(token, saveptr, ps).
         case token of None \<Rightarrow> 0
         | Some t \<Rightarrow> Suc (case saveptr of None \<Rightarrow> 0 | Some s \<Rightarrow> length s))"
  proof (cases "fst nxt")
    case None
    with tok show ?thesis by simp
  next
    case (Some tk)
    have "safe_strtok None ''&'' None = (None, None)"
      by (simp add: safe_strtok_def)
    with Some nxt obtain s where s: "saveptr = Some s"
      by (cases saveptr) auto
    from nxt s have "nxt = safe_strtok None ''&'' (Some s)"
      by simp
    with Some have "\<exists>r. nxt = (Some tk, Some r)"
      by (simp add: resume split: if_splits)
    then obtain r where r: "nxt = (Some tk, Some r)" ..
    with nxt s have "safe_strtok None ''&'' (Some s) = (Some tk, Some r)"
      by simp
    then have "length r < length s"
      by (rule shorter)
    with tok s r show ?thesis by simp
  qed
qed

text \<open>
  Lines 294 to 314 of \<open>process_domain\<close>: the names of the query parameters of
  \<open>original\<close>. \<open>query\<close> is the working buffer of \<open>MAX_PARAM_LEN\<close> bytes.
\<close>

definition extract_params :: "string \<Rightarrow> string list" where
  "extract_params original =
     (case strchr original (CHR ''?'') of
        None \<Rightarrow> []
      | Some qmark \<Rightarrow>
          (let query = fst (safe_strncpy (tl qmark) MAX_PARAM_LEN);
               first = safe_strtok (Some query) ''&'' None
           in token_loop (fst first) (snd first) []))"

text \<open>
  The same extraction in the words of the specification: the text after the first
  \<open>?\<close>, cut to the buffer, split on \<open>&\<close>; of each token that is not empty the part
  before the first \<open>=\<close>; names that are empty dropped.
\<close>

fun spec_split :: "char \<Rightarrow> string \<Rightarrow> string list" where
  "spec_split d [] = [[]]"
| "spec_split d (c # cs) =
     (if c = d then [] # spec_split d cs
      else (case spec_split d cs of
              t # ts \<Rightarrow> (c # t) # ts
            | [] \<Rightarrow> [[c]]))"

definition spec_name :: "string \<Rightarrow> string" where
  "spec_name token = takeWhile (\<lambda>c. c \<noteq> CHR ''='') token"

definition spec_tokens :: "string \<Rightarrow> string list" where
  "spec_tokens q = filter (\<lambda>t. t \<noteq> []) (spec_split (CHR ''&'') q)"

definition spec_parameters :: "string \<Rightarrow> string list" where
  "spec_parameters u =
     (if CHR ''?'' \<notin> set u then []
      else
        (let after = tl (dropWhile (\<lambda>c. c \<noteq> CHR ''?'') u);
             tokens = spec_tokens (take 511 after)
         in filter (\<lambda>n. n \<noteq> []) (map spec_name tokens)))"

section \<open>Decoded pages\<close>

text \<open>
  A value decoded by the JSON library. The program only asks whether a value is an
  array, how long it is, what its elements are, and for the text of a string.
\<close>

datatype json =
    JNull
  | JTrue
  | JFalse
  | JInteger int
  | JReal string
  | JString string
  | JArray "json list"
  | JObject "(string \<times> json) list"

text \<open>\<open>json_string_value\<close> is \<open>NULL\<close> for everything that is not a string.\<close>

fun json_string_value :: "json \<Rightarrow> string option" where
  "json_string_value (JString s) = Some s"
| "json_string_value _ = None"

text \<open>
  What one request to the index server gives the loop: the transfer fails, the body
  is empty, the body does not parse, or the body parses to a value.
\<close>

datatype response = TransportError | EmptyBody | ParseError | Payload json

section \<open>The page loop\<close>

text \<open>
  The variables of \<open>process_domain\<close> that live across pages; \<open>endpoint_count\<close> is the
  length of \<open>endpoints\<close>. Two fields are no variables of the program. \<open>requests\<close> logs
  every request issued, by the resume key that the query was built with (\<open>None\<close> for
  the first query, which asks for a resume key). \<open>crashed\<close> is set when a step runs into
  a fault: the program has no defined behaviour from there on, so the state is left as
  it was, no further request is made and no report is written.
\<close>

record loop_state =
  seen :: URLSet
  endpoints :: "Endpoint list"
  endpoint_capacity :: int
  requests :: "string option list"
  crashed :: bool

definition initial_state :: loop_state where
  "initial_state =
     \<lparr>seen = empty_set, endpoints = [], endpoint_capacity = 0, requests = [],
      crashed = False\<rparr>"

text \<open>
  The two guards of the row loop with the two cells it reads: \<open>None\<close> stands for
  \<open>continue\<close>, otherwise \<open>original\<close> and the (possibly \<open>NULL\<close>) \<open>mimetype\<close>.
\<close>

definition row_fields :: "json \<Rightarrow> (string \<times> string option) option" where
  "row_fields row =
     (case row of
        JArray cells \<Rightarrow>
          if length cells < 4 then None
          else (case json_string_value (cells ! 0) of
                  None \<Rightarrow> None
                | Some original \<Rightarrow> Some (original, json_string_value (cells ! 3)))
      | _ \<Rightarrow> None)"

text \<open>
  The call \<open>add_url(&seen, original)\<close> with the body under it, which appends the
  record of a new URL. The progress line that the body prints is left out.
\<close>

definition observe :: "loop_state \<Rightarrow> string \<Rightarrow> string option \<Rightarrow> loop_state" where
  "observe st original mimetype =
     (if crashed st then st
      else
        (case add_url (seen st) (Some original) of
           Inl f \<Rightarrow> st\<lparr>crashed := True\<rparr>
         | Inr (r, seen1) \<Rightarrow>
             if r \<noteq> 0 then
               (case grow (int (length (endpoints st))) (endpoint_capacity st) of
                  Inl f \<Rightarrow> st\<lparr>crashed := True\<rparr>
                | Inr cap1 \<Rightarrow>
                    st\<lparr>seen := seen1,
                       endpoints := endpoints st @
                         [\<lparr>url = original,
                           method = infer_method (Some original) mimetype,
                           params = extract_params original\<rparr>],
                       endpoint_capacity := cap1\<rparr>)
             else st\<lparr>seen := seen1\<rparr>))"

definition process_row :: "loop_state \<Rightarrow> json \<Rightarrow> loop_state" where
  "process_row st row =
     (case row_fields row of
        None \<Rightarrow> st
      | Some (original, mimetype) \<Rightarrow> observe st original mimetype)"

text \<open>The rows from index 1 on, in order.\<close>

definition process_rows :: "loop_state \<Rightarrow> json list \<Rightarrow> loop_state" where
  "process_rows st rows = foldl process_row st rows"

text \<open>
  The resume key read from the last row of a page of at least two rows; \<open>None\<close> when
  \<open>resume_key\<close> stays \<open>NULL\<close>.
\<close>

definition next_resume_key :: "json list \<Rightarrow> string option" where
  "next_resume_key root =
     (case root ! (length root - 1) of
        JArray last_row \<Rightarrow>
          if length last_row > 0 then
            (case json_string_value (last_row ! (length last_row - 1)) of
               None \<Rightarrow> None
             | Some key \<Rightarrow> if key \<noteq> [] \<and> key \<noteq> ''null'' then Some key else None)
          else None
      | _ \<Rightarrow> None)"

text \<open>
  The \<open>do ... while (resume_key)\<close> loop, run against the responses the server gives in
  order. The result is \<open>None\<close> when the loop asks for more responses than the list
  has, so a loop that would go on is never given a final state. The loop is entered in
  a state that has not crashed; after the rows of a page a crashed state ends it.
\<close>

fun fetch_loop :: "response list \<Rightarrow> string option \<Rightarrow> loop_state \<Rightarrow> loop_state option" where
  "fetch_loop [] resume_key st = None"
| "fetch_loop (r # rs) resume_key st =
     (let st1 = st\<lparr>requests := requests st @ [resume_key]\<rparr>
      in case r of
           TransportError \<Rightarrow> Some st1
         | EmptyBody \<Rightarrow> Some st1
         | ParseError \<Rightarrow> Some st1
         | Payload (JArray root) \<Rightarrow>
             if length root < 2 then Some st1
             else
               (let st2 = process_rows st1 (tl root)
                in if crashed st2 then Some st2
                   else (case next_resume_key root of
                           None \<Rightarrow> Some st2
                         | Some key \<Rightarrow> fetch_loop rs (Some key) st2))
         | Payload _ \<Rightarrow> Some st1)"

section \<open>Sorting and writing the report\<close>

definition compare_endpoints_asc :: "Endpoint \<Rightarrow> Endpoint \<Rightarrow> int" where
  "compare_endpoints_asc ea eb = strcmp (url ea) (url eb)"

definition compare_endpoints_desc :: "Endpoint \<Rightarrow> Endpoint \<Rightarrow> int" where
  "compare_endpoints_desc ea eb = strcmp (url eb) (url ea)"

text \<open>
  \<open>qsort\<close> belongs to the C library, which fixes its result only up to the order of
  elements that compare equal. The model is insertion sort by the comparison function;
  records with pairwise different URLs have only one rearrangement in URL order, so for
  them every \<open>qsort\<close> gives this result.
\<close>

fun qsort_insert :: "('a \<Rightarrow> 'a \<Rightarrow> int) \<Rightarrow> 'a \<Rightarrow> 'a list \<Rightarrow> 'a list" where
  "qsort_insert compar x [] = [x]"
| "qsort_insert compar x (y # ys) =
     (if compar x y \<le> 0 then x # y # ys else y # qsort_insert compar x ys)"

definition qsort :: "('a \<Rightarrow> 'a \<Rightarrow> int) \<Rightarrow> 'a list \<Rightarrow> 'a list" where
  "qsort compar xs = foldr (qsort_insert compar) xs []"

definition sort_endpoints :: "int \<Rightarrow> Endpoint list \<Rightarrow> Endpoint list" where
  "sort_endpoints sort_desc es =
     (if length es > 0
      then qsort (if sort_desc \<noteq> 0 then compare_endpoints_desc else compare_endpoints_asc) es
      else es)"

text \<open>
  The loop that writes the records. \<open>json_dumps\<close> stands for building the object of a
  record and dumping it, \<open>None\<close> when the library returns no string. \<open>i\<close> is the index
  of the record at the head of the list.
\<close>

definition newline :: string where
  "newline = [CHR 0x0A]"

fun write_records :: "(Endpoint \<Rightarrow> string option) \<Rightarrow> nat \<Rightarrow> Endpoint list \<Rightarrow> string" where
  "write_records json_dumps i [] = []"
| "write_records json_dumps i (e # es) =
     (case json_dumps e of
        Some json_str \<Rightarrow> (if i > 0 then '','' @ newline else []) @ json_str
      | None \<Rightarrow> []) @ write_records json_dumps (Suc i) es"

definition write_report :: "(Endpoint \<Rightarrow> string option) \<Rightarrow> Endpoint list \<Rightarrow> string" where
  "write_report json_dumps es =
     ''['' @ newline @ write_records json_dumps 0 es @ newline @ '']'' @ newline"

text \<open>
  The records in the order in which they are written, for the responses of one run;
  \<open>None\<close> when the run writes no report.
\<close>

definition report_endpoints :: "response list \<Rightarrow> int \<Rightarrow> Endpoint list option" where
  "report_endpoints responses sort_desc =
     (case fetch_loop responses None initial_state of
        None \<Rightarrow> None
      | Some st \<Rightarrow>
          if crashed st then None else Some (sort_endpoints sort_desc (endpoints st)))"

text \<open>
  \<open>process_domain\<close>: the return value with the content of the output file, if one is
  written. Opening the transfer handle and the output file are taken to succeed.
  \<open>limit\<close>, \<open>timeout\<close> and \<open>verbose\<close> only shape the query text, the transfer and
  what is printed, so they are no arguments here.
\<close>

definition process_domain ::
  "(Endpoint \<Rightarrow> string option) \<Rightarrow> response list \<Rightarrow> string option \<Rightarrow> int \<Rightarrow>
     (int \<times> string option) option" where
  "process_domain json_dumps responses domain sort_desc =
     (case domain of
        None \<Rightarrow> Some (1, None)
      | Some d \<Rightarrow>
          if d = [] \<or> length d > MAX_DOMAIN_LEN then Some (1, None)
          else (case report_endpoints responses sort_desc of
                  None \<Rightarrow> None
                | Some es \<Rightarrow> Some (0, Some (write_report json_dumps es))))"

section \<open>Facts about the string functions\<close>

lemma found_strstr: "found (strstr h n) \<longleftrightarrow> sublist n h"
proof (induction h)
  case Nil
  show ?case by (simp add: found_def)
next
  case (Cons c cs)
  show ?case
  proof (cases "prefix n (c # cs)")
    case True
    then show ?thesis by (simp add: found_def sublist_Cons_right)
  next
    case False
    with Cons show ?thesis by (simp add: sublist_Cons_right)
  qed
qed

lemma strcmp_eq_0_iff: "strcmp a b = 0 \<longleftrightarrow> a = b"
  by (induction a b rule: strcmp.induct) auto

lemma strcmp_le_0_iff: "strcmp a b \<le> 0 \<longleftrightarrow> a \<le> b"
  by (induction a b rule: strcmp.induct) (auto simp: less_char_def)

lemma strcmp_ge_0_iff: "strcmp a b \<ge> 0 \<longleftrightarrow> b \<le> a"
  by (induction a b rule: strcmp.induct)
     (auto simp: less_char_def not_less order.order_iff_strict)

lemma scan_urls_iff: "scan_urls us u \<longleftrightarrow> u \<in> set us"
  by (induction us) (auto simp: strcmp_eq_0_iff)

lemma grow_less: "grow n cap = Inr cap1 \<Longrightarrow> n < cap1"
  by (auto simp: grow_def max_c_def INITIAL_CAPACITY_def INT_MIN_def split: if_splits)

lemma grow_ok:
  assumes "0 \<le> n" and "n \<le> cap" and "n < 2 ^ 30"
  shows "\<exists>cap1. grow n cap = Inr cap1"
  using assms by (auto simp: grow_def INT_MAX_def INT_MIN_def)

lemma grow_overflow: "grow (2 ^ 30) (2 ^ 30) = Inl Overflow"
  by (simp add: grow_def INT_MAX_def)

lemma add_url_null: "add_url s None = Inr (0, s)"
  by (simp add: add_url_def)

lemma add_url_empty: "add_url s (Some []) = Inr (0, s)"
  by (simp add: add_url_def)

lemma add_url_seen: "u \<in> set (urls s) \<Longrightarrow> add_url s (Some u) = Inr (0, s)"
  by (simp add: add_url_def scan_urls_iff)

lemma add_url_new:
  assumes "u \<noteq> []" and "u \<notin> set (urls s)"
    and "int (length (urls s)) \<le> capacity s" and "length (urls s) < 2 ^ 30"
  shows "\<exists>s'. add_url s (Some u) = Inr (1, s') \<and> urls s' = urls s @ [u]
              \<and> int (length (urls s')) \<le> capacity s'"
proof -
  have "int (length (urls s)) < 2 ^ 30"
    using assms(4) by (metis of_nat_less_iff of_nat_numeral of_nat_power)
  with assms(3) obtain cap1 where g: "grow (int (length (urls s))) (capacity s) = Inr cap1"
    using grow_ok [of "int (length (urls s))" "capacity s"] by auto
  then have "int (length (urls s)) < cap1"
    by (rule grow_less)
  with g assms(1,2) show ?thesis
    by (simp add: add_url_def scan_urls_iff)
qed

lemma add_url_overflow:
  assumes "u \<noteq> []" and "u \<notin> set (urls s)"
    and "length (urls s) = 2 ^ 30" and "capacity s = 2 ^ 30"
  shows "add_url s (Some u) = Inl Overflow"
  using assms grow_overflow by (simp add: add_url_def scan_urls_iff)

lemma add_url_Inr_result:
  assumes "add_url s x = Inr (r, s')"
  shows "r = (if \<exists>u. x = Some u \<and> u \<noteq> [] \<and> u \<notin> set (urls s) then 1 else 0)"
  using assms
  by (cases x) (auto simp: add_url_def scan_urls_iff split: if_splits sum.splits)

lemma add_url_Inr_urls:
  assumes "add_url s x = Inr (r, s')"
  shows "urls s' =
     (case x of None \<Rightarrow> urls s
      | Some u \<Rightarrow> if u \<noteq> [] \<and> u \<notin> set (urls s) then urls s @ [u] else urls s)"
  using assms
  by (cases x) (auto simp: add_url_def scan_urls_iff split: if_splits sum.splits)

lemma add_url_Inr_same:
  assumes "add_url s x = Inr (r, s')" and "r = 0"
  shows "s' = s"
  using assms
  by (cases x) (auto simp: add_url_def scan_urls_iff split: if_splits sum.splits)

lemma add_url_Inr_capacity:
  assumes "add_url s x = Inr (r, s')" and "int (length (urls s)) \<le> capacity s"
  shows "int (length (urls s')) \<le> capacity s'"
  using assms
  by (cases x)
     (auto simp: add_url_def scan_urls_iff dest: grow_less split: if_splits sum.splits)

lemma add_url_ok:
  assumes "int (length (urls s)) \<le> capacity s" and "length (urls s) < 2 ^ 30"
  shows "\<exists>r s'. add_url s x = Inr (r, s')"
proof (cases "\<exists>u. x = Some u \<and> u \<noteq> [] \<and> u \<notin> set (urls s)")
  case True
  then obtain u where "x = Some u" "u \<noteq> []" "u \<notin> set (urls s)"
    by blast
  with add_url_new [OF _ _ assms, of u] show ?thesis
    by blast
next
  case False
  then have "add_url s x = Inr (0, s)"
    by (cases x) (auto simp: add_url_def scan_urls_iff)
  then show ?thesis by blast
qed

lemma set_urls_add_url:
  "add_url s x = Inr (r, s') \<Longrightarrow>
   set (urls s') = set (urls s) \<union> {u. x = Some u \<and> u \<noteq> []}"
  by (cases x) (auto simp: add_url_Inr_urls)

lemma distinct_urls_add_url:
  "add_url s x = Inr (r, s') \<Longrightarrow> distinct (urls s) \<Longrightarrow> distinct (urls s')"
  by (cases x) (auto simp: add_url_Inr_urls)

lemma length_urls_add_url:
  "add_url s x = Inr (r, s') \<Longrightarrow> length (urls s') \<le> Suc (length (urls s))"
  by (cases x) (auto simp: add_url_Inr_urls)

lemma feed_Cons_Inr:
  "feed s (x # xs) = Inr (rs, s') \<longleftrightarrow>
     (\<exists>r s1 rs'. add_url s x = Inr (r, s1) \<and> feed s1 xs = Inr (rs', s') \<and> rs = r # rs')"
  by (auto split: sum.splits)

lemma length_feed: "feed s us = Inr (rs, s') \<Longrightarrow> length rs = length us"
  by (induction us arbitrary: s rs) (auto simp: feed_Cons_Inr simp del: feed.simps(2))

lemma set_urls_feed:
  "feed s us = Inr (rs, s') \<Longrightarrow>
   set (urls s') = set (urls s) \<union> {u. Some u \<in> set us \<and> u \<noteq> []}"
proof (induction us arbitrary: s rs)
  case Nil
  then show ?case by simp
next
  case (Cons x xs)
  then obtain r s1 rs' where a: "add_url s x = Inr (r, s1)" and f: "feed s1 xs = Inr (rs', s')"
    by (auto simp: feed_Cons_Inr simp del: feed.simps(2))
  from Cons.IH [OF f] set_urls_add_url [OF a] show ?case
    by auto
qed

lemma distinct_urls_feed:
  "feed s us = Inr (rs, s') \<Longrightarrow> distinct (urls s) \<Longrightarrow> distinct (urls s')"
proof (induction us arbitrary: s rs)
  case Nil
  then show ?case by simp
next
  case (Cons x xs)
  then obtain r s1 rs' where a: "add_url s x = Inr (r, s1)" and f: "feed s1 xs = Inr (rs', s')"
    by (auto simp: feed_Cons_Inr simp del: feed.simps(2))
  from distinct_urls_add_url [OF a Cons.prems(2)] Cons.IH [OF f] show ?case
    by blast
qed

lemma feed_nth:
  "feed s us = Inr (rs, s') \<Longrightarrow> i < length us \<Longrightarrow>
   rs ! i =
     (if \<exists>u. us ! i = Some u \<and> u \<noteq> [] \<and> u \<notin> set (urls s) \<and> Some u \<notin> set (take i us)
      then 1 else 0)"
proof (induction us arbitrary: s rs i)
  case Nil
  then show ?case by simp
next
  case (Cons x xs)
  then obtain r s1 rs' where a: "add_url s x = Inr (r, s1)" and f: "feed s1 xs = Inr (rs', s')"
    and rs: "rs = r # rs'"
    by (auto simp: feed_Cons_Inr simp del: feed.simps(2))
  show ?case
  proof (cases i)
    case 0
    then show ?thesis
      using add_url_Inr_result [OF a] by (simp add: rs)
  next
    case (Suc j)
    with Cons.prems have j: "j < length xs" by simp
    have "rs ! i = rs' ! j"
      by (simp add: rs Suc)
    also have "\<dots> = (if \<exists>u. xs ! j = Some u \<and> u \<noteq> [] \<and> u \<notin> set (urls s1) \<and>
                     Some u \<notin> set (take j xs) then 1 else 0)"
      by (rule Cons.IH [OF f j])
    also have "\<dots> = (if \<exists>u. (x # xs) ! i = Some u \<and> u \<noteq> [] \<and> u \<notin> set (urls s) \<and>
                     Some u \<notin> set (take i (x # xs)) then 1 else 0)"
      by (auto simp: Suc set_urls_add_url [OF a])
    finally show ?thesis .
  qed
qed

lemma feed_ok:
  assumes "int (length (urls s)) \<le> capacity s" and "length (urls s) + length us \<le> 2 ^ 30"
  shows "\<exists>rs s'. feed s us = Inr (rs, s')"
  using assms
proof (induction us arbitrary: s)
  case Nil
  show ?case by simp
next
  case (Cons x xs)
  from Cons.prems(2) have "length (urls s) < 2 ^ 30"
    by simp
  with Cons.prems(1) obtain r s1 where a: "add_url s x = Inr (r, s1)"
    using add_url_ok by blast
  have "int (length (urls s1)) \<le> capacity s1"
    using a Cons.prems(1) by (rule add_url_Inr_capacity)
  moreover have "length (urls s1) + length xs \<le> 2 ^ 30"
    using length_urls_add_url [OF a] Cons.prems(2) by simp
  ultimately obtain rs' s' where "feed s1 xs = Inr (rs', s')"
    using Cons.IH by blast
  with a show ?case
    by (simp add: feed_Cons_Inr del: feed.simps(2))
qed

section \<open>The page loop keeps URLs and records in step\<close>

lemma observe_crashed: "crashed st \<Longrightarrow> observe st original mimetype = st"
  by (simp add: observe_def)

lemma observe_outcomes:
  "observe st original mimetype = st
   \<or> observe st original mimetype = st\<lparr>crashed := True\<rparr>
   \<or> (\<not> crashed st \<and> original \<noteq> [] \<and> original \<notin> set (urls (seen st)) \<and>
       (\<exists>seen1 cap1.
          add_url (seen st) (Some original) = Inr (1, seen1) \<and>
          urls seen1 = urls (seen st) @ [original] \<and>
          observe st original mimetype =
            st\<lparr>seen := seen1,
               endpoints := endpoints st @
                 [\<lparr>url = original,
                   method = infer_method (Some original) mimetype,
                   params = extract_params original\<rparr>],
               endpoint_capacity := cap1\<rparr>))"
proof (cases "crashed st")
  case True
  then show ?thesis by (simp add: observe_crashed)
next
  case False
  show ?thesis
  proof (cases "add_url (seen st) (Some original)")
    case (Inl f)
    with False show ?thesis by (simp add: observe_def)
  next
    case (Inr p)
    obtain r seen1 where p: "p = (r, seen1)"
      by (cases p)
    note a = Inr [unfolded p]
    show ?thesis
    proof (cases "r = 0")
      case True
      with a have "seen1 = seen st"
        by (simp add: add_url_Inr_same)
      with False a True show ?thesis
        by (simp add: observe_def)
    next
      case nz: False
      with add_url_Inr_result [OF a]
      have new: "original \<noteq> [] \<and> original \<notin> set (urls (seen st))" and r: "r = 1"
        by (auto split: if_splits)
      with add_url_Inr_urls [OF a] have u: "urls seen1 = urls (seen st) @ [original]"
        by simp
      show ?thesis
      proof (cases "grow (int (length (endpoints st))) (endpoint_capacity st)")
        case (Inl f)
        with False a nz show ?thesis by (simp add: observe_def)
      next
        case (Inr cap1)
        with False a r have "observe st original mimetype =
            st\<lparr>seen := seen1,
               endpoints := endpoints st @
                 [\<lparr>url = original,
                   method = infer_method (Some original) mimetype,
                   params = extract_params original\<rparr>],
               endpoint_capacity := cap1\<rparr>"
          by (simp add: observe_def)
        with a r u have "\<exists>seen1 cap1.
          add_url (seen st) (Some original) = Inr (1, seen1) \<and>
          urls seen1 = urls (seen st) @ [original] \<and>
          observe st original mimetype =
            st\<lparr>seen := seen1,
               endpoints := endpoints st @
                 [\<lparr>url = original,
                   method = infer_method (Some original) mimetype,
                   params = extract_params original\<rparr>],
               endpoint_capacity := cap1\<rparr>"
          by blast
        with False new show ?thesis
          by blast
      qed
    qed
  qed
qed

lemma requests_observe: "requests (observe st original mimetype) = requests st"
  using observe_outcomes [of st original mimetype] by auto

lemma requests_process_row: "requests (process_row st row) = requests st"
  by (simp add: process_row_def requests_observe split: option.splits)

lemma requests_process_rows: "requests (process_rows st rows) = requests st"
  unfolding process_rows_def
  by (induction rows arbitrary: st) (simp_all add: requests_process_row)

lemma crashed_observe: "crashed st \<Longrightarrow> crashed (observe st original mimetype)"
  by (simp add: observe_crashed)

lemma crashed_process_row: "crashed st \<Longrightarrow> crashed (process_row st row)"
  by (simp add: process_row_def crashed_observe split: option.splits)

lemma crashed_process_rows: "crashed st \<Longrightarrow> crashed (process_rows st rows)"
  unfolding process_rows_def
  by (induction rows arbitrary: st) (simp_all add: crashed_process_row)

lemma observe_keeps_link:
  "map url (endpoints st) = urls (seen st) \<Longrightarrow>
   map url (endpoints (observe st original mimetype)) = urls (seen (observe st original mimetype))"
  using observe_outcomes [of st original mimetype] by auto

lemma observe_keeps_distinct:
  "distinct (urls (seen st)) \<Longrightarrow> distinct (urls (seen (observe st original mimetype)))"
  using observe_outcomes [of st original mimetype] by auto

lemma process_row_keeps:
  assumes "map url (endpoints st) = urls (seen st)" and "distinct (urls (seen st))"
  shows "map url (endpoints (process_row st row)) = urls (seen (process_row st row))"
    and "distinct (urls (seen (process_row st row)))"
  using assms
  by (simp_all add: process_row_def observe_keeps_link observe_keeps_distinct
        split: option.splits)

lemma process_rows_keeps:
  assumes "map url (endpoints st) = urls (seen st)" and "distinct (urls (seen st))"
  shows "map url (endpoints (process_rows st rows)) = urls (seen (process_rows st rows))
         \<and> distinct (urls (seen (process_rows st rows)))"
  using assms unfolding process_rows_def
proof (induction rows arbitrary: st)
  case Nil
  then show ?case by simp
next
  case (Cons row rows)
  from Cons.prems have "map url (endpoints (process_row st row)) = urls (seen (process_row st row))"
    and "distinct (urls (seen (process_row st row)))"
    by (rule process_row_keeps)+
  then show ?case
    using Cons.IH [of "process_row st row"] by simp
qed

lemma fetch_loop_break:
  assumes "\<And>root. r = Payload (JArray root) \<Longrightarrow> length root < 2"
  shows "fetch_loop (r # rs) key st = Some (st\<lparr>requests := requests st @ [key]\<rparr>)"
  using assms by (auto simp: Let_def split: response.splits json.splits)

lemma fetch_loop_page:
  assumes "2 \<le> length root"
  shows "fetch_loop (Payload (JArray root) # rs) key st =
     (if crashed (process_rows (st\<lparr>requests := requests st @ [key]\<rparr>) (tl root))
      then Some (process_rows (st\<lparr>requests := requests st @ [key]\<rparr>) (tl root))
      else
        (case next_resume_key root of
           None \<Rightarrow> Some (process_rows (st\<lparr>requests := requests st @ [key]\<rparr>) (tl root))
         | Some k \<Rightarrow>
             fetch_loop rs (Some k)
               (process_rows (st\<lparr>requests := requests st @ [key]\<rparr>) (tl root))))"
  using assms by (simp add: Let_def)

lemma fetch_loop_keeps:
  assumes "fetch_loop responses key st = Some st'"
    and "map url (endpoints st) = urls (seen st)" and "distinct (urls (seen st))"
  shows "map url (endpoints st') = urls (seen st') \<and> distinct (urls (seen st'))"
  using assms
proof (induction responses arbitrary: key st)
  case Nil
  then show ?case by simp
next
  case (Cons r rs)
  define st1 where "st1 = st\<lparr>requests := requests st @ [key]\<rparr>"
  have st1: "map url (endpoints st1) = urls (seen st1)" "distinct (urls (seen st1))"
    using Cons.prems by (simp_all add: st1_def)
  show ?case
  proof (cases "\<exists>root. r = Payload (JArray root) \<and> 2 \<le> length root")
    case False
    then have "fetch_loop (r # rs) key st = Some st1"
      unfolding st1_def by (intro fetch_loop_break) auto
    with Cons.prems(1) have "st' = st1"
      by simp
    with st1 show ?thesis by simp
  next
    case True
    then obtain root where r: "r = Payload (JArray root)" and len: "2 \<le> length root"
      by blast
    define st2 where "st2 = process_rows st1 (tl root)"
    have st2: "map url (endpoints st2) = urls (seen st2) \<and> distinct (urls (seen st2))"
      unfolding st2_def using st1 by (rule process_rows_keeps)
    show ?thesis
    proof (cases "crashed st2 \<or> next_resume_key root = None")
      case True
      with Cons.prems(1) r len have "st' = st2"
        by (auto simp: fetch_loop_page st1_def st2_def simp del: fetch_loop.simps
              split: if_splits)
      with st2 show ?thesis by simp
    next
      case False
      then obtain k where "next_resume_key root = Some k" and "\<not> crashed st2"
        by auto
      with Cons.prems(1) r len have "fetch_loop rs (Some k) st2 = Some st'"
        by (simp add: fetch_loop_page st1_def st2_def del: fetch_loop.simps)
      then show ?thesis
        using st2 Cons.IH [of "Some k" st2] by blast
    qed
  qed
qed

lemma initial_state_link:
  "map url (endpoints initial_state) = urls (seen initial_state)"
  "distinct (urls (seen initial_state))"
  by (simp_all add: initial_state_def empty_set_def)

lemma mset_qsort_insert: "mset (qsort_insert c x xs) = add_mset x (mset xs)"
  by (induction xs) simp_all

lemma mset_qsort: "mset (qsort c xs) = mset xs"
  unfolding qsort_def by (induction xs) (simp_all add: mset_qsort_insert)

lemma set_qsort_insert: "set (qsort_insert c x xs) = insert x (set xs)"
  by (induction xs) auto

lemma sorted_wrt_qsort_insert:
  assumes trans: "\<And>x y z. R x y \<Longrightarrow> R y z \<Longrightarrow> R x z"
    and total: "\<And>x y. R x y \<or> R y x"
    and c: "\<And>x y. c x y \<le> 0 \<longleftrightarrow> R x y"
  shows "sorted_wrt R xs \<Longrightarrow> sorted_wrt R (qsort_insert c x xs)"
proof (induction xs)
  case Nil
  show ?case by simp
next
  case (Cons y ys)
  show ?case
  proof (cases "c x y \<le> 0")
    case True
    then have "R x y" by (simp add: c)
    with Cons.prems trans have "\<forall>z \<in> set ys. R x z" by auto
    with True \<open>R x y\<close> Cons.prems show ?thesis by simp
  next
    case False
    then have "R y x" using total [of x y] by (simp add: c)
    with False Cons show ?thesis by (auto simp: set_qsort_insert)
  qed
qed

lemma sorted_wrt_qsort:
  assumes "\<And>x y z. R x y \<Longrightarrow> R y z \<Longrightarrow> R x z"
    and "\<And>x y. R x y \<or> R y x"
    and "\<And>x y. c x y \<le> 0 \<longleftrightarrow> R x y"
  shows "sorted_wrt R (qsort c xs)"
  unfolding qsort_def
  by (induction xs) (simp_all add: sorted_wrt_qsort_insert [where R = R, OF assms])

lemma sorted_qsort_asc: "sorted (map url (qsort compare_endpoints_asc es))"
proof -
  have "sorted_wrt (\<lambda>a b. url a \<le> url b) (qsort compare_endpoints_asc es)"
    by (rule sorted_wrt_qsort) (auto simp: compare_endpoints_asc_def strcmp_le_0_iff)
  then show ?thesis by (simp add: sorted_map)
qed

lemma sorted_qsort_desc: "sorted (rev (map url (qsort compare_endpoints_desc es)))"
proof -
  have "sorted_wrt (\<lambda>a b. url b \<le> url a) (qsort compare_endpoints_desc es)"
    by (rule sorted_wrt_qsort) (auto simp: compare_endpoints_desc_def strcmp_le_0_iff)
  then show ?thesis by (simp add: sorted_wrt_map sorted_wrt_rev flip: rev_map)
qed

lemma mset_sort_endpoints: "mset (sort_endpoints d es) = mset es"
  by (simp add: sort_endpoints_def mset_qsort)

lemma sorted_sort_endpoints_asc: "sorted (map url (sort_endpoints 0 es))"
  by (simp add: sort_endpoints_def sorted_qsort_asc)

lemma sorted_sort_endpoints_desc: "d \<noteq> 0 \<Longrightarrow> sorted (rev (map url (sort_endpoints d es)))"
  by (simp add: sort_endpoints_def sorted_qsort_desc)

lemma distinct_sort_endpoints:
  "distinct (map url (sort_endpoints d es)) \<longleftrightarrow> distinct (map url es)"
proof -
  have "mset (map url (sort_endpoints d es)) = mset (map url es)"
    by (simp add: mset_sort_endpoints)
  then show ?thesis by (rule mset_eq_imp_distinct_iff)
qed

lemma sorted_by_url_unique:
  assumes "mset xs = mset ys" and "distinct (map url xs)"
    and "sorted (map url xs)" and "sorted (map url ys)"
  shows "xs = ys"
proof -
  have set: "set xs = set ys"
    using assms(1) by (rule mset_eq_setD)
  have "mset (map url xs) = mset (map url ys)"
    using assms(1) by simp
  then have dys: "distinct (map url ys)"
    using assms(2) mset_eq_imp_distinct_iff by blast
  have "inj_on url (set xs \<union> set ys)"
    using assms(2) set by (simp add: distinct_map)
  then show ?thesis
    using assms(3) assms(2) assms(4) dys set by (rule map_sorted_distinct_set_unique)
qed

lemma rev_sort_endpoints:
  assumes "distinct (map url es)" and "d \<noteq> 0"
  shows "rev (sort_endpoints 0 es) = sort_endpoints d es"
proof -
  have "sort_endpoints 0 es = rev (sort_endpoints d es)"
  proof (rule sorted_by_url_unique)
    show "mset (sort_endpoints 0 es) = mset (rev (sort_endpoints d es))"
      by (simp add: mset_sort_endpoints)
    show "distinct (map url (sort_endpoints 0 es))"
      using assms(1) by (simp add: distinct_sort_endpoints)
    show "sorted (map url (sort_endpoints 0 es))"
      by (rule sorted_sort_endpoints_asc)
    show "sorted (map url (rev (sort_endpoints d es)))"
      using sorted_sort_endpoints_desc [OF assms(2)] by (simp add: rev_map)
  qed
  then show ?thesis by simp
qed

lemma report_endpoints_distinct:
  assumes "report_endpoints responses d = Some es"
  shows "distinct (map url es)"
proof -
  from assms obtain st where st: "fetch_loop responses None initial_state = Some st"
    and es: "es = sort_endpoints d (endpoints st)"
    by (auto simp: report_endpoints_def split: option.splits if_splits)
  from st initial_state_link have "map url (endpoints st) = urls (seen st) \<and> distinct (urls (seen st))"
    by (rule fetch_loop_keeps)
  then have "distinct (map url (endpoints st))" by simp
  then show ?thesis by (simp add: es distinct_sort_endpoints)
qed

section \<open>Tokens of a query string\<close>

lemma strchr_eq:
  "strchr s c = (if c \<in> set s then Some (dropWhile (\<lambda>x. x \<noteq> c) s) else None)"
  by (induction s) auto

lemma take_length_dropWhile:
  "take (length t - length (dropWhile P t)) t = takeWhile P t"
proof -
  have "length (takeWhile P t) + length (dropWhile P t) = length t"
    by (simp only: length_append [symmetric] takeWhile_dropWhile_id)
  then have "length t - length (dropWhile P t) = length (takeWhile P t)"
    by linarith
  then show ?thesis
    by (simp add: takeWhile_eq_take [symmetric])
qed

lemma cut_at_eq_name: "cut_at_eq t = spec_name t"
proof (cases "CHR ''='' \<in> set t")
  case True
  then show ?thesis
    by (simp add: cut_at_eq_def spec_name_def strchr_eq take_length_dropWhile)
next
  case False
  then have tw: "takeWhile (\<lambda>c. c \<noteq> CHR ''='') t = t"
    by (auto simp: takeWhile_eq_all_conv)
  show ?thesis
    unfolding cut_at_eq_def spec_name_def strchr_eq tw using False by simp
qed

lemma safe_strtok_scan:
  "safe_strtok (Some s) ''&'' saveptr =
     (if dropWhile (\<lambda>c. c = CHR ''&'') s = [] then (None, saveptr)
      else (Some (takeWhile (\<lambda>c. c \<noteq> CHR ''&'') (dropWhile (\<lambda>c. c = CHR ''&'') s)),
            Some (tl (dropWhile (\<lambda>c. c \<noteq> CHR ''&'')
                   (dropWhile (\<lambda>c. c = CHR ''&'') s)))))"
proof -
  have a: "drop (strspn s ''&'') s = dropWhile (\<lambda>c. c = CHR ''&'') s"
    by (simp add: strspn_def dropWhile_eq_drop)
  have b: "drop (strcspn u ''&'') u = dropWhile (\<lambda>c. c \<noteq> CHR ''&'') u" for u
    by (simp add: strcspn_def dropWhile_eq_drop)
  have c: "take (strcspn u ''&'') u = takeWhile (\<lambda>c. c \<noteq> CHR ''&'') u" for u
    by (simp add: strcspn_def takeWhile_eq_take [symmetric])
  have d: "(if e \<noteq> [] then tl e else e) = tl e" for e :: string
    by simp
  show ?thesis
    unfolding safe_strtok_def Let_def option.case a b c d
    by (cases s) simp_all
qed

lemma safe_strtok_resume:
  "safe_strtok None ''&'' (Some s) = safe_strtok (Some s) ''&'' (Some s)"
  by (simp add: safe_strtok_def)

lemma spec_split_unfold:
  "spec_split d xs =
     takeWhile (\<lambda>c. c \<noteq> d) xs #
       (case dropWhile (\<lambda>c. c \<noteq> d) xs of [] \<Rightarrow> [] | _ # r \<Rightarrow> spec_split d r)"
proof (induction xs)
  case Nil
  show ?case by simp
next
  case (Cons x xs)
  show ?case
  proof (cases "x = d")
    case True
    then show ?thesis by simp
  next
    case False
    then show ?thesis
      by (simp add: Cons.IH)
  qed
qed

lemma spec_tokens_Nil: "spec_tokens [] = []"
  by (simp add: spec_tokens_def)

lemma spec_tokens_skip:
  "spec_tokens (dropWhile (\<lambda>c. c = CHR ''&'') xs) = spec_tokens xs"
  by (induction xs) (simp_all add: spec_tokens_def)

lemma spec_tokens_first:
  assumes "xs \<noteq> []" and "hd xs \<noteq> CHR ''&''"
  shows "spec_tokens xs =
     takeWhile (\<lambda>c. c \<noteq> CHR ''&'') xs #
       spec_tokens (tl (dropWhile (\<lambda>c. c \<noteq> CHR ''&'') xs))"
proof -
  define tw where "tw = takeWhile (\<lambda>c. c \<noteq> CHR ''&'') xs"
  define dw where "dw = dropWhile (\<lambda>c. c \<noteq> CHR ''&'') xs"
  from assms have ne: "tw \<noteq> []"
    unfolding tw_def by (cases xs) auto
  have split: "spec_split (CHR ''&'') xs =
      tw # (case dw of [] \<Rightarrow> [] | _ # r \<Rightarrow> spec_split (CHR ''&'') r)"
    unfolding tw_def dw_def by (rule spec_split_unfold)
  have "spec_tokens xs = tw # spec_tokens (tl dw)"
  proof (cases dw)
    case Nil
    with ne split show ?thesis
      by (simp add: spec_tokens_def)
  next
    case (Cons y r)
    with ne split show ?thesis
      by (simp add: spec_tokens_def)
  qed
  then show ?thesis
    by (simp only: tw_def dw_def)
qed

lemma token_loop_None: "token_loop None saveptr ps = ps"
  by simp

lemma token_loop_Some:
  "token_loop (Some t) saveptr ps =
     token_loop (fst (safe_strtok None ''&'' saveptr)) (snd (safe_strtok None ''&'' saveptr))
       (if spec_name t \<noteq> [] then ps @ [spec_name t] else ps)"
  by (subst token_loop.simps) (simp add: Let_def cut_at_eq_name)

lemma token_loop_tokens:
  "token_loop (Some t) (Some r) ps =
     ps @ filter (\<lambda>n. n \<noteq> []) (map spec_name (t # spec_tokens r))"
proof (induction "length r" arbitrary: t r ps rule: less_induct)
  case less
  define s1 where "s1 = dropWhile (\<lambda>c. c = CHR ''&'') r"
  define ps1 where "ps1 = (if spec_name t \<noteq> [] then ps @ [spec_name t] else ps)"
  have toks: "spec_tokens r = spec_tokens s1"
    by (simp add: s1_def spec_tokens_skip)
  show ?case
  proof (cases "s1 = []")
    case True
    then have "safe_strtok None ''&'' (Some r) = (None, Some r)"
      by (simp add: safe_strtok_resume safe_strtok_scan s1_def)
    then have "token_loop (Some t) (Some r) ps = ps1"
      by (simp add: token_loop_Some token_loop_None ps1_def del: token_loop.simps)
    with True toks show ?thesis
      by (simp add: ps1_def spec_tokens_Nil)
  next
    case False
    define tk where "tk = takeWhile (\<lambda>c. c \<noteq> CHR ''&'') s1"
    define r' where "r' = tl (dropWhile (\<lambda>c. c \<noteq> CHR ''&'') s1)"
    from False have nxt: "safe_strtok None ''&'' (Some r) = (Some tk, Some r')"
      by (simp add: safe_strtok_resume safe_strtok_scan s1_def tk_def r'_def)
    have hd: "hd s1 \<noteq> CHR ''&''"
      using hd_dropWhile [of "\<lambda>c. c = CHR ''&''" r] False by (simp add: s1_def)
    from False obtain x xs where s1: "s1 = x # xs"
      by (cases s1) auto
    with hd have eq: "dropWhile (\<lambda>c. c \<noteq> CHR ''&'') s1 = dropWhile (\<lambda>c. c \<noteq> CHR ''&'') xs"
      by simp
    have "length r' \<le> length (dropWhile (\<lambda>c. c \<noteq> CHR ''&'') s1)"
      by (simp add: r'_def)
    also have "\<dots> = length (dropWhile (\<lambda>c. c \<noteq> CHR ''&'') xs)"
      by (simp only: eq)
    also have "\<dots> \<le> length xs"
      by (rule length_dropWhile_le)
    finally have "length r' \<le> length xs" .
    moreover have "length s1 \<le> length r"
      unfolding s1_def by (rule length_dropWhile_le)
    ultimately have shorter: "length r' < length r"
      using s1 by simp
    have "token_loop (Some t) (Some r) ps = token_loop (Some tk) (Some r') ps1"
      using nxt by (simp add: token_loop_Some ps1_def del: token_loop.simps)
    also have "\<dots> = ps1 @ filter (\<lambda>n. n \<noteq> []) (map spec_name (tk # spec_tokens r'))"
      using shorter by (rule less.hyps)
    also have "tk # spec_tokens r' = spec_tokens r"
      using spec_tokens_first [OF False hd] by (simp add: toks tk_def r'_def)
    finally show ?thesis
      by (simp add: ps1_def)
  qed
qed

lemma first_token_tokens:
  "token_loop (fst (safe_strtok (Some q) ''&'' None)) (snd (safe_strtok (Some q) ''&'' None)) []
     = filter (\<lambda>n. n \<noteq> []) (map spec_name (spec_tokens q))"
proof (cases "dropWhile (\<lambda>c. c = CHR ''&'') q = []")
  case True
  have "spec_tokens q = spec_tokens (dropWhile (\<lambda>c. c = CHR ''&'') q)"
    by (simp only: spec_tokens_skip)
  also have "\<dots> = []"
    by (simp only: True spec_tokens_Nil)
  finally have "spec_tokens q = []" .
  moreover have "safe_strtok (Some q) ''&'' None = (None, None)"
    unfolding safe_strtok_scan True by simp
  ultimately show ?thesis
    by (simp add: token_loop_None del: token_loop.simps)
next
  case False
  have hd: "hd (dropWhile (\<lambda>c. c = CHR ''&'') q) \<noteq> CHR ''&''"
    using hd_dropWhile [of "\<lambda>c. c = CHR ''&''" q] False by simp
  have "spec_tokens q = spec_tokens (dropWhile (\<lambda>c. c = CHR ''&'') q)"
    by (simp only: spec_tokens_skip)
  also note spec_tokens_first [OF False hd]
  finally have toks: "spec_tokens q =
      takeWhile (\<lambda>c. c \<noteq> CHR ''&'') (dropWhile (\<lambda>c. c = CHR ''&'') q) #
      spec_tokens (tl (dropWhile (\<lambda>c. c \<noteq> CHR ''&'') (dropWhile (\<lambda>c. c = CHR ''&'') q)))" .
  have "safe_strtok (Some q) ''&'' None =
      (Some (takeWhile (\<lambda>c. c \<noteq> CHR ''&'') (dropWhile (\<lambda>c. c = CHR ''&'') q)),
       Some (tl (dropWhile (\<lambda>c. c \<noteq> CHR ''&'') (dropWhile (\<lambda>c. c = CHR ''&'') q))))"
    by (simp only: safe_strtok_scan False if_False)
  then show ?thesis
    by (simp only: fst_conv snd_conv token_loop_tokens toks append_Nil)
qed

lemma safe_strncpy_buffer: "fst (safe_strncpy src MAX_PARAM_LEN) = take 511 src"
  by (simp add: safe_strncpy_def MAX_PARAM_LEN_def Let_def)

lemma extract_params_spec: "extract_params u = spec_parameters u"
  by (simp add: extract_params_def spec_parameters_def strchr_eq Let_def
        safe_strncpy_buffer first_token_tokens del: token_loop.simps)

lemma dropWhile_first_qmark:
  "CHR ''?'' \<notin> set pre \<Longrightarrow> dropWhile (\<lambda>c. c \<noteq> CHR ''?'') (pre @ CHR ''?'' # q) = CHR ''?'' # q"
  by (induction pre) auto

lemma spec_parameters_query:
  "CHR ''?'' \<notin> set pre \<Longrightarrow>
   spec_parameters (pre @ CHR ''?'' # q) =
     filter (\<lambda>n. n \<noteq> []) (map spec_name (spec_tokens (take 511 q)))"
  by (simp add: spec_parameters_def dropWhile_first_qmark)

lemma spec_split_last: "d \<notin> set p \<Longrightarrow> spec_split d p = [p]"
  by (induction p) auto

lemma spec_split_append: "d \<notin> set p \<Longrightarrow> spec_split d (p @ d # r) = p # spec_split d r"
  by (induction p) auto

lemma spec_split_pieces: "t \<in> set (spec_split d xs) \<Longrightarrow> d \<notin> set t"
  by (induction xs arbitrary: t) (auto split: if_splits list.splits)

lemma spec_split_joins: "concat (map ((#) d) (spec_split d xs)) = d # xs"
  by (induction xs) (auto split: list.splits)

section \<open>Rows, pages and the written text\<close>

lemma process_rows_append:
  "process_rows st (rows @ rows') = process_rows (process_rows st rows) rows'"
  by (simp add: process_rows_def)

lemma process_rows_Cons:
  "process_rows st (row # rows) = process_rows (process_row st row) rows"
  by (simp add: process_rows_def)

lemma process_rows_Nil: "process_rows st [] = st"
  by (simp add: process_rows_def)

lemma row_fields_malformed:
  assumes "(\<forall>cells. row \<noteq> JArray cells)
           \<or> (\<exists>cells. row = JArray cells \<and> (length cells < 4 \<or> (\<forall>s. cells ! 0 \<noteq> JString s)))"
  shows "row_fields row = None"
proof (cases row)
  case (JArray cells)
  with assms have "length cells < 4 \<or> (\<forall>s. cells ! 0 \<noteq> JString s)"
    by simp
  then have "length cells < 4 \<or> json_string_value (cells ! 0) = None"
    by (cases "cells ! 0") auto
  with JArray show ?thesis
    by (auto simp: row_fields_def)
qed (simp_all add: row_fields_def)

lemma row_fields_wellformed:
  "row_fields (JArray (JString original # timestamp # statuscode # mimetype # extra))
     = Some (original, json_string_value mimetype)"
  by (simp add: row_fields_def)

lemma process_rows_fields:
  "process_rows st rows =
     foldl (\<lambda>s (original, mimetype). observe s original mimetype) st
       (List.map_filter row_fields rows)"
proof (induction rows arbitrary: st)
  case Nil
  show ?case by (simp add: process_rows_def List.map_filter_simps)
next
  case (Cons row rows)
  show ?case
    by (cases "row_fields row")
       (auto simp: process_rows_Cons Cons.IH process_row_def List.map_filter_simps)
qed

lemma next_resume_key_last:
  assumes "root \<noteq> []"
  shows "next_resume_key root =
     (case last root of
        JArray last_row \<Rightarrow>
          if last_row \<noteq> [] then
            (case json_string_value (last last_row) of
               None \<Rightarrow> None
             | Some key \<Rightarrow> if key \<noteq> [] \<and> key \<noteq> ''null'' then Some key else None)
          else None
      | _ \<Rightarrow> None)"
  using assms by (simp add: next_resume_key_def last_conv_nth split: json.splits)

lemma next_resume_key_none:
  assumes "root \<noteq> []"
    and "(\<forall>cells. last root \<noteq> JArray cells) \<or> last root = JArray []
         \<or> (\<exists>cells. last root = JArray cells \<and> cells \<noteq> [] \<and>
               ((\<forall>k. last cells \<noteq> JString k) \<or> last cells = JString []
                \<or> last cells = JString ''null''))"
  shows "next_resume_key root = None"
proof (cases "last root")
  case (JArray cells)
  show ?thesis
  proof (cases "cells = []")
    case True
    with JArray show ?thesis
      by (simp add: next_resume_key_last [OF assms(1)])
  next
    case False
    from assms(2) JArray False
    have "(\<forall>k. last cells \<noteq> JString k) \<or> last cells = JString []
          \<or> last cells = JString ''null''"
      by simp
    then have "case json_string_value (last cells) of None \<Rightarrow> True
               | Some k \<Rightarrow> k = [] \<or> k = ''null''"
      by (cases "last cells") auto
    with JArray False show ?thesis
      by (auto simp: next_resume_key_last [OF assms(1)] split: option.splits)
  qed
qed (simp_all add: next_resume_key_last [OF assms(1)])

lemma write_records_failed:
  "json_dumps e = None \<Longrightarrow>
   write_records json_dumps i (e # es) = write_records json_dumps (Suc i) es"
  by simp

lemma next_resume_key_data_row:
  "next_resume_key
     [JArray [JString ''original'', JString ''timestamp'', JString ''statuscode'',
              JString ''mimetype''],
      JArray [JString ''http://x.com/'', JString ''2020'', JString ''200'',
              JString ''text/html'']]
   = Some ''text/html''"
  by (simp add: next_resume_key_def)

lemma write_report_leading_comma:
  assumes "json_dumps e = None" and "json_dumps e' = Some json_str"
  shows "write_report json_dumps (e # e' # es) =
     ''['' @ newline @ '','' @ newline @ json_str @ write_records json_dumps 2 es
       @ newline @ '']'' @ newline"
  using assms by (simp add: write_report_def numeral_2_eq_2)

lemma write_report_first_ok:
  assumes "json_dumps e = Some json_str"
  shows "write_report json_dumps (e # es) =
     ''['' @ newline @ json_str @ write_records json_dumps 1 es @ newline @ '']'' @ newline"
  using assms by (simp add: write_report_def)

lemma process_domain_report:
  assumes "d \<noteq> []" and "length d \<le> MAX_DOMAIN_LEN"
    and "report_endpoints responses sort_desc = Some es"
  shows "process_domain json_dumps responses (Some d) sort_desc
     = Some (0, Some (write_report json_dumps es))"
  using assms by (simp add: process_domain_def)

lemma seen_observe:
  assumes "\<not> crashed (observe st original mimetype)"
  shows "\<exists>r. add_url (seen st) (Some original) = Inr (r, seen (observe st original mimetype))"
proof -
  from assms have nc: "\<not> crashed st"
    using crashed_observe by blast
  show ?thesis
  proof (cases "add_url (seen st) (Some original)")
    case (Inl f)
    with nc assms show ?thesis by (simp add: observe_def)
  next
    case (Inr p)
    obtain r seen1 where p: "p = (r, seen1)"
      by (cases p)
    show ?thesis
    proof (cases "grow (int (length (endpoints st))) (endpoint_capacity st)")
      case (Inl f)
      with nc assms Inr p show ?thesis
        by (cases "r = 0") (simp_all add: observe_def)
    next
      case (Inr cap1)
      with nc \<open>add_url (seen st) (Some original) = Inr p\<close> p show ?thesis
        by (cases "r = 0") (simp_all add: observe_def)
    qed
  qed
qed

lemma seen_foldl_observe:
  assumes "\<not> crashed (foldl (\<lambda>s (original, mimetype). observe s original mimetype) st fs)"
  shows "\<exists>rs. feed (seen st) (map (\<lambda>(original, mimetype). Some original) fs) =
     Inr (rs, seen (foldl (\<lambda>s (original, mimetype). observe s original mimetype) st fs))"
  using assms
proof (induction fs arbitrary: st)
  case Nil
  show ?case by simp
next
  case (Cons f fs)
  obtain original mimetype where f: "f = (original, mimetype)"
    by (cases f)
  define st1 where "st1 = observe st original mimetype"
  from Cons.prems
  have fin: "\<not> crashed (foldl (\<lambda>s (original, mimetype). observe s original mimetype) st1 fs)"
    by (simp add: f st1_def)
  have "crashed (foldl (\<lambda>s (original, mimetype). observe s original mimetype) s gs)"
    if "crashed s" for s gs
    using that by (induction gs arbitrary: s) (auto simp: crashed_observe)
  with fin have "\<not> crashed st1"
    by blast
  then obtain r where a: "add_url (seen st) (Some original) = Inr (r, seen st1)"
    unfolding st1_def using seen_observe by blast
  from Cons.IH [OF fin] obtain rs where
    "feed (seen st1) (map (\<lambda>(original, mimetype). Some original) fs) =
       Inr (rs, seen (foldl (\<lambda>s (original, mimetype). observe s original mimetype) st1 fs))"
    by blast
  with a show ?case
    by (simp add: f st1_def feed_Cons_Inr del: feed.simps(2))
qed

lemma seen_process_rows:
  assumes "\<not> crashed (process_rows st rows)"
  shows "\<exists>rs. feed (seen st)
       (map (\<lambda>(original, mimetype). Some original) (List.map_filter row_fields rows))
     = Inr (rs, seen (process_rows st rows))"
  using assms unfolding process_rows_fields by (rule seen_foldl_observe)

lemma fetch_loop_ends:
  assumes "\<exists>r \<in> set responses.
             \<forall>root. r = Payload (JArray root) \<longrightarrow> length root < 2 \<or> next_resume_key root = None"
  shows "\<exists>st'. fetch_loop responses key st = Some st'"
  using assms
proof (induction responses arbitrary: key st)
  case Nil
  then show ?case by simp
next
  case (Cons r rs)
  show ?case
  proof (cases "\<exists>root. r = Payload (JArray root) \<and> 2 \<le> length root")
    case False
    then have "fetch_loop (r # rs) key st = Some (st\<lparr>requests := requests st @ [key]\<rparr>)"
      by (intro fetch_loop_break) auto
    then show ?thesis by blast
  next
    case True
    then obtain root where r: "r = Payload (JArray root)" and len: "2 \<le> length root"
      by blast
    show ?thesis
    proof (cases "next_resume_key root")
      case None
      with len show ?thesis
        by (simp add: r fetch_loop_page del: fetch_loop.simps)
    next
      case (Some k)
      from Some Cons.prems r len
      have "\<exists>r \<in> set rs.
             \<forall>root. r = Payload (JArray root) \<longrightarrow> length root < 2 \<or> next_resume_key root = None"
        by auto
      then have "\<exists>st'. fetch_loop rs (Some k)
          (process_rows (st\<lparr>requests := requests st @ [key]\<rparr>) (tl root)) = Some st'"
        by (rule Cons.IH)
      with Some len show ?thesis
        by (simp add: r fetch_loop_page del: fetch_loop.simps)
    qed
  qed
qed

section \<open>Method inference: the claims\<close>

text \<open>
  Claim C1. Method inference is a function of the URL and the optional mimetype alone.
  When the URL contains none of login, submit, upload, create, update, delete, api,
  json, graphql and the mimetype contains none of json, xml, form, the result is GET;
  otherwise it is PUT if the URL contains update or patch, else DELETE if it contains
  delete or remove, else POST. Containment is that of a contiguous substring and is
  case-sensitive (upper-case LOGIN and FORM are no signal), and PUT is checked before
  DELETE: a URL with both update and delete yields PUT.
\<close>

theorem infer_method_decision:
  "infer_method (Some u) mimetype =
     (let m = (case mimetype of Some mt \<Rightarrow> mt | None \<Rightarrow> '''') in
      if \<not> (sublist ''login'' u \<or> sublist ''submit'' u \<or> sublist ''upload'' u \<or>
             sublist ''create'' u \<or> sublist ''update'' u \<or> sublist ''delete'' u \<or>
             sublist ''api'' u \<or> sublist ''json'' u \<or> sublist ''graphql'' u) \<and>
         \<not> (sublist ''json'' m \<or> sublist ''xml'' m \<or> sublist ''form'' m)
      then ''GET''
      else if sublist ''update'' u \<or> sublist ''patch'' u then ''PUT''
      else if sublist ''delete'' u \<or> sublist ''remove'' u then ''DELETE''
      else ''POST'')
   \<and> (sublist ''update'' u \<and> sublist ''delete'' u \<longrightarrow>
        infer_method (Some u) mimetype = ''PUT'')
   \<and> infer_method (Some ''https://x.com/LOGIN'') (Some ''FORM'') = ''GET''"
proof (intro conjI)
  show "infer_method (Some ''https://x.com/LOGIN'') (Some ''FORM'') = ''GET''"
    by code_simp
qed (simp_all add: infer_method_def found_strstr Let_def)

theorem infer_method_decision_witness:
  "sublist ''update'' ''/update/delete'' \<and> sublist ''delete'' ''/update/delete'' \<and>
   infer_method (Some ''/update/delete'') None = ''PUT''"
proof -
  have h: "sublist ''update'' ''/update/delete'' \<and> sublist ''delete'' ''/update/delete''"
    by code_simp
  note d = infer_method_decision [of "''/update/delete''" None]
  from d [THEN conjunct2, THEN conjunct1] h
  have "infer_method (Some ''/update/delete'') None = ''PUT''"
    by (rule mp)
  with h show ?thesis
    by (simp only: simp_thms)
qed

text \<open>
  Claim C9. Method inference returns for every input, a null URL and a null mimetype
  included, one of the four strings GET, POST, PUT, DELETE. A null URL yields GET, and
  a null mimetype gives the same result as the empty mimetype.
\<close>

theorem infer_method_total:
  "infer_method u mimetype \<in> {''GET'', ''POST'', ''PUT'', ''DELETE''}
   \<and> infer_method None mimetype = ''GET''
   \<and> infer_method u None = infer_method u (Some '''')"
  by (cases u) (simp_all add: infer_method_def Let_def)

text \<open>
  Claim C2. A call of \<open>add_url\<close> with a null or an empty string returns 0 and leaves the
  set as it is, and so does a call with a string already in the set. A call with a
  string that is not empty and not yet in the set returns 1 and appends it, for a set
  whose count does not exceed its capacity and is below \<open>2 ^ 30\<close>; at \<open>2 ^ 30\<close> entries
  the doubling of the capacity leaves the range of \<open>int\<close> and the call has no defined
  result. So, feeding a sequence of at most \<open>2 ^ 30\<close> strings to the empty set, call \<open>i\<close>
  returns 1 exactly when its string is not empty and did not occur among the earlier
  calls, and the set ends up holding each such string once. The row loop feeds the
  first cells of its rows to the set in this way (\<open>seen_process_rows\<close>), and the records
  of the report of one run have pairwise different URLs.
\<close>

theorem add_url_dedup:
  "add_url s None = Inr (0, s) \<and> add_url s (Some []) = Inr (0, s)
   \<and> (u \<in> set (urls s) \<longrightarrow> add_url s (Some u) = Inr (0, s))
   \<and> (u \<noteq> [] \<and> u \<notin> set (urls s) \<and> int (length (urls s)) \<le> capacity s
        \<and> length (urls s) < 2 ^ 30 \<longrightarrow>
        (\<exists>s'. add_url s (Some u) = Inr (1, s') \<and> urls s' = urls s @ [u]))
   \<and> (length us \<le> 2 ^ 30 \<longrightarrow>
        (\<exists>rs s'. feed empty_set us = Inr (rs, s')
           \<and> (i < length us \<longrightarrow>
                rs ! i =
                 (if \<exists>v. us ! i = Some v \<and> v \<noteq> [] \<and> Some v \<notin> set (take i us)
                  then 1 else 0))
           \<and> set (urls s') = {v. Some v \<in> set us \<and> v \<noteq> []}
           \<and> distinct (urls s')))
   \<and> (report_endpoints responses sort_desc = Some es \<longrightarrow> distinct (map url es))"
proof (intro conjI impI)
  assume "u \<noteq> [] \<and> u \<notin> set (urls s) \<and> int (length (urls s)) \<le> capacity s
        \<and> length (urls s) < 2 ^ 30"
  then show "\<exists>s'. add_url s (Some u) = Inr (1, s') \<and> urls s' = urls s @ [u]"
    using add_url_new [of u s] by blast
next
  assume len: "length us \<le> 2 ^ 30"
  have e: "urls empty_set = []" "capacity empty_set = 0"
    by (simp_all add: empty_set_def)
  from len e obtain rs s' where f: "feed empty_set us = Inr (rs, s')"
    using feed_ok [of empty_set us] by auto
  have "i < length us \<longrightarrow>
        rs ! i = (if \<exists>v. us ! i = Some v \<and> v \<noteq> [] \<and> Some v \<notin> set (take i us) then 1 else 0)"
    using feed_nth [OF f, of i] e by simp
  moreover have "set (urls s') = {v. Some v \<in> set us \<and> v \<noteq> []}"
    using set_urls_feed [OF f] e by simp
  moreover have "distinct (urls s')"
    using distinct_urls_feed [OF f] e by simp
  ultimately show "\<exists>rs s'. feed empty_set us = Inr (rs, s')
           \<and> (i < length us \<longrightarrow>
                rs ! i =
                 (if \<exists>v. us ! i = Some v \<and> v \<noteq> [] \<and> Some v \<notin> set (take i us)
                  then 1 else 0))
           \<and> set (urls s') = {v. Some v \<in> set us \<and> v \<noteq> []}
           \<and> distinct (urls s')"
    using f by blast
qed (simp_all add: add_url_null add_url_empty add_url_seen report_endpoints_distinct)

theorem add_url_dedup_witness:
  "(\<exists>s'. add_url empty_set (Some ''a'') = Inr (1, s') \<and> urls s' = [''a''])
   \<and> add_url \<lparr>urls = [''a''], capacity = 1024\<rparr> (Some ''a'')
        = Inr (0, \<lparr>urls = [''a''], capacity = 1024\<rparr>)
   \<and> (\<exists>rs s'. feed empty_set [Some ''a'', None, Some ''a''] = Inr (rs, s') \<and> rs ! 2 = 0
         \<and> set (urls s') = {''a''})
   \<and> report_endpoints
        [Payload (JArray
           [JArray [JString ''original'', JString ''timestamp'', JString ''statuscode'',
                    JString ''mimetype''],
            JArray [JString ''b'', JString ''2020'', JString ''200'', JNull],
            JArray [JString ''a'', JString ''2020'', JString ''200'', JNull],
            JArray [JString ''b'', JString ''2021'', JString ''404'', JNull]])] 0
        = Some [\<lparr>url = ''a'', method = ''GET'', params = []\<rparr>,
                \<lparr>url = ''b'', method = ''GET'', params = []\<rparr>]
   \<and> distinct (map url [\<lparr>url = ''a'', method = ''GET'', params = []\<rparr>,
                          \<lparr>url = ''b'', method = ''GET'', params = []\<rparr>])"
proof -
  let ?s = "\<lparr>urls = [''a''], capacity = 1024\<rparr>"
  let ?us = "[Some ''a'', None, Some ''a'']"
  let ?page = "[Payload (JArray
           [JArray [JString ''original'', JString ''timestamp'', JString ''statuscode'',
                    JString ''mimetype''],
            JArray [JString ''b'', JString ''2020'', JString ''200'', JNull],
            JArray [JString ''a'', JString ''2020'', JString ''200'', JNull],
            JArray [JString ''b'', JString ''2021'', JString ''404'', JNull]])]"
  let ?es = "[\<lparr>url = ''a'', method = ''GET'', params = []\<rparr>,
              \<lparr>url = ''b'', method = ''GET'', params = []\<rparr>]"
  have new: "''a'' \<noteq> [] \<and> ''a'' \<notin> set (urls empty_set)
      \<and> int (length (urls empty_set)) \<le> capacity empty_set
      \<and> length (urls empty_set) < 2 ^ 30"
    by (simp add: empty_set_def)
  have old: "''a'' \<in> set (urls ?s)"
    by simp
  have len: "length ?us \<le> 2 ^ 30"
    by simp
  have i: "2 < length ?us"
    by simp
  have later: "\<not> (\<exists>v. ?us ! 2 = Some v \<and> v \<noteq> [] \<and> Some v \<notin> set (take 2 ?us))"
    by (simp add: numeral_2_eq_2)
  have members: "{v. Some v \<in> set ?us \<and> v \<noteq> []} = {''a''}"
    by auto
  have run: "report_endpoints ?page 0 = Some ?es"
    by code_simp
  note a = add_url_dedup [of empty_set "''a''" ?us 2 ?page 0 ?es]
  note b = add_url_dedup [of ?s "''a''" ?us 2 ?page 0 ?es]
  from a new have "\<exists>s'. add_url empty_set (Some ''a'') = Inr (1, s')
      \<and> urls s' = urls empty_set @ [''a'']"
    by blast
  then have one: "\<exists>s'. add_url empty_set (Some ''a'') = Inr (1, s') \<and> urls s' = [''a'']"
    by (simp add: empty_set_def)
  from b old have two: "add_url ?s (Some ''a'') = Inr (0, ?s)"
    by blast
  from a len have "\<exists>rs s'. feed empty_set ?us = Inr (rs, s')
           \<and> (2 < length ?us \<longrightarrow>
                rs ! 2 =
                 (if \<exists>v. ?us ! 2 = Some v \<and> v \<noteq> [] \<and> Some v \<notin> set (take 2 ?us)
                  then 1 else 0))
           \<and> set (urls s') = {v. Some v \<in> set ?us \<and> v \<noteq> []}
           \<and> distinct (urls s')"
    by blast
  then obtain rs s' where f: "feed empty_set ?us = Inr (rs, s')"
    and n: "2 < length ?us \<longrightarrow>
                rs ! 2 =
                 (if \<exists>v. ?us ! 2 = Some v \<and> v \<noteq> [] \<and> Some v \<notin> set (take 2 ?us)
                  then 1 else 0)"
    and m: "set (urls s') = {v. Some v \<in> set ?us \<and> v \<noteq> []}"
    by blast
  from n i later have "rs ! 2 = 0"
    by (simp only: simp_thms if_False)
  with f m members
  have three: "\<exists>rs s'. feed empty_set ?us = Inr (rs, s') \<and> rs ! 2 = 0 \<and> set (urls s') = {''a''}"
    by blast
  from a run have four: "distinct (map url ?es)"
    by blast
  from one two three run four show ?thesis
    by (intro conjI)
qed

text \<open>
  Claim C3. The records are written in the order of their URLs: ascending when
  \<open>sort_desc\<close> is 0, descending otherwise. The order is the lexicographic order of the
  byte sequences, bytes compared by value, which is the order that \<open>strcmp\<close> decides.
  Sorting only rearranges the records. For records with pairwise different URLs, as
  every run collects them, the ascending order reversed is the descending order.
\<close>

theorem sort_endpoints_ordered:
  "(a \<le> b \<longleftrightarrow> strcmp a b \<le> 0)
   \<and> sorted (map url (sort_endpoints 0 es))
   \<and> (d \<noteq> 0 \<longrightarrow> sorted (rev (map url (sort_endpoints d es))))
   \<and> mset (sort_endpoints d es) = mset es
   \<and> (distinct (map url es) \<and> d \<noteq> 0 \<longrightarrow> rev (sort_endpoints 0 es) = sort_endpoints d es)
   \<and> (report_endpoints responses 0 = Some up \<and> report_endpoints responses d = Some down
        \<and> d \<noteq> 0 \<longrightarrow> rev up = down)"
proof (intro conjI impI)
  assume run: "report_endpoints responses 0 = Some up \<and> report_endpoints responses d = Some down
        \<and> d \<noteq> 0"
  then obtain st where st: "fetch_loop responses None initial_state = Some st"
    and up: "up = sort_endpoints 0 (endpoints st)"
    and down: "down = sort_endpoints d (endpoints st)"
    by (auto simp: report_endpoints_def split: option.splits if_splits)
  from st initial_state_link
  have "map url (endpoints st) = urls (seen st) \<and> distinct (urls (seen st))"
    by (rule fetch_loop_keeps)
  then have "distinct (map url (endpoints st))"
    by simp
  with run show "rev up = down"
    by (simp add: up down rev_sort_endpoints)
qed (simp_all add: strcmp_le_0_iff sorted_sort_endpoints_asc sorted_sort_endpoints_desc
       mset_sort_endpoints rev_sort_endpoints)

theorem sort_endpoints_ordered_witness:
  "sort_endpoints 0 [\<lparr>url = ''b'', method = ''GET'', params = []\<rparr>,
                     \<lparr>url = ''a'', method = ''GET'', params = []\<rparr>,
                     \<lparr>url = ''ab'', method = ''GET'', params = []\<rparr>]
     = [\<lparr>url = ''a'', method = ''GET'', params = []\<rparr>,
        \<lparr>url = ''ab'', method = ''GET'', params = []\<rparr>,
        \<lparr>url = ''b'', method = ''GET'', params = []\<rparr>]
   \<and> sort_endpoints 1 [\<lparr>url = ''b'', method = ''GET'', params = []\<rparr>,
                       \<lparr>url = ''a'', method = ''GET'', params = []\<rparr>,
                       \<lparr>url = ''ab'', method = ''GET'', params = []\<rparr>]
     = [\<lparr>url = ''b'', method = ''GET'', params = []\<rparr>,
        \<lparr>url = ''ab'', method = ''GET'', params = []\<rparr>,
        \<lparr>url = ''a'', method = ''GET'', params = []\<rparr>]
   \<and> sorted (rev (map url (sort_endpoints 1
         [\<lparr>url = ''b'', method = ''GET'', params = []\<rparr>,
          \<lparr>url = ''a'', method = ''GET'', params = []\<rparr>,
          \<lparr>url = ''ab'', method = ''GET'', params = []\<rparr>])))
   \<and> report_endpoints
        [Payload (JArray
           [JArray [],
            JArray [JString ''b'', JString ''2020'', JString ''200'', JNull],
            JArray [JString ''a'', JString ''2020'', JString ''200'', JNull]])] 1
     = Some [\<lparr>url = ''b'', method = ''GET'', params = []\<rparr>,
             \<lparr>url = ''a'', method = ''GET'', params = []\<rparr>]
   \<and> report_endpoints
        [Payload (JArray
           [JArray [],
            JArray [JString ''b'', JString ''2020'', JString ''200'', JNull],
            JArray [JString ''a'', JString ''2020'', JString ''200'', JNull]])] 0
     = Some (rev [\<lparr>url = ''b'', method = ''GET'', params = []\<rparr>,
                  \<lparr>url = ''a'', method = ''GET'', params = []\<rparr>])"
proof -
  let ?es = "[\<lparr>url = ''b'', method = ''GET'', params = []\<rparr>,
              \<lparr>url = ''a'', method = ''GET'', params = []\<rparr>,
              \<lparr>url = ''ab'', method = ''GET'', params = []\<rparr>]"
  let ?page = "[Payload (JArray
           [JArray [],
            JArray [JString ''b'', JString ''2020'', JString ''200'', JNull],
            JArray [JString ''a'', JString ''2020'', JString ''200'', JNull]])]"
  let ?up = "[\<lparr>url = ''a'', method = ''GET'', params = []\<rparr>,
              \<lparr>url = ''b'', method = ''GET'', params = []\<rparr>]"
  have d: "(1::int) \<noteq> 0"
    by simp
  have dist: "distinct (map url ?es)"
    by simp
  have up: "sort_endpoints 0 ?es =
      [\<lparr>url = ''a'', method = ''GET'', params = []\<rparr>,
       \<lparr>url = ''ab'', method = ''GET'', params = []\<rparr>,
       \<lparr>url = ''b'', method = ''GET'', params = []\<rparr>]"
    by code_simp
  have run_up: "report_endpoints ?page 0 = Some ?up"
    by code_simp
  let ?down = "[\<lparr>url = ''b'', method = ''GET'', params = []\<rparr>,
                \<lparr>url = ''a'', method = ''GET'', params = []\<rparr>]"
  have run_down: "report_endpoints ?page 1 = Some ?down"
    by code_simp
  note t = sort_endpoints_ordered [of "''a''" "''b''" ?es 1 ?page ?up ?down]
  from t d have "sorted (rev (map url (sort_endpoints 1 ?es)))"
    by blast
  moreover from t d dist have "rev (sort_endpoints 0 ?es) = sort_endpoints 1 ?es"
    by blast
  moreover from t d run_up run_down have "rev ?up = ?down"
    by blast
  ultimately show ?thesis
    using up run_up run_down by (simp del: sorted_wrt.simps)
qed

section \<open>Parameter extraction: the claims\<close>

text \<open>
  Claim C4. For a URL without \<open>?\<close> the parameter list is empty. Otherwise it is
  computed from the text after the first \<open>?\<close>, cut to the working buffer: the text is
  split on \<open>&\<close>, every token that is not empty gives the part before its first \<open>=\<close>
  (the whole token when it has none), empty names are dropped, the order of the tokens
  is kept and repeated names stay. The URL of the example gives user, pass, user. The
  list is a function of the URL alone, so extracting again gives the same list.
\<close>

theorem extract_params_tokens:
  "extract_params u = spec_parameters u
   \<and> (CHR ''?'' \<notin> set u \<longrightarrow> extract_params u = [])
   \<and> (CHR ''?'' \<notin> set pre \<longrightarrow>
        extract_params (pre @ CHR ''?'' # q) =
          filter (\<lambda>n. n \<noteq> []) (map spec_name (spec_tokens (take 511 q))))
   \<and> extract_params ''https://x.com/login?user=a&pass=b&user=c''
        = [''user'', ''pass'', ''user'']"
proof (intro conjI impI)
  show "extract_params u = spec_parameters u"
    by (rule extract_params_spec)
  show "extract_params u = []" if "CHR ''?'' \<notin> set u"
    using that by (simp add: extract_params_spec spec_parameters_def)
  show "extract_params (pre @ CHR ''?'' # q) =
          filter (\<lambda>n. n \<noteq> []) (map spec_name (spec_tokens (take 511 q)))"
    if "CHR ''?'' \<notin> set pre"
    using that by (simp add: extract_params_spec spec_parameters_query)
  show "extract_params ''https://x.com/login?user=a&pass=b&user=c''
        = [''user'', ''pass'', ''user'']"
    by code_simp
qed

theorem extract_params_tokens_witness:
  "CHR ''?'' \<notin> set ''/home'' \<and> extract_params ''/home'' = []
   \<and> extract_params (''/a'' @ CHR ''?'' # ''x=1&&y&=z&x=2'') = [''x'', ''y'', ''x'']"
proof -
  have h: "CHR ''?'' \<notin> set ''/home''" and p: "CHR ''?'' \<notin> set ''/a''"
    by simp_all
  have toks: "filter (\<lambda>n. n \<noteq> []) (map spec_name (spec_tokens (take 511 ''x=1&&y&=z&x=2'')))
      = [''x'', ''y'', ''x'']"
    by code_simp
  note a = extract_params_tokens [of "''/home''" "''/a''" "''x=1&&y&=z&x=2''"]
  from a h have "extract_params ''/home'' = []"
    by blast
  moreover from a p have "extract_params (''/a'' @ CHR ''?'' # ''x=1&&y&=z&x=2'') =
      filter (\<lambda>n. n \<noteq> []) (map spec_name (spec_tokens (take 511 ''x=1&&y&=z&x=2'')))"
    by blast
  ultimately show ?thesis
    using h toks by (simp only: simp_thms)
qed

text \<open>
  Claim C10. The working buffer has \<open>MAX_PARAM_LEN = 512\<close> bytes, so the copy keeps the
  first 511 bytes of the text after the first \<open>?\<close>. The parameters of a URL are those
  of the URL cut 511 bytes after that \<open>?\<close>; whatever follows has no effect, and a name
  that crosses the boundary is cut there: with 507 bytes, \<open>&\<close> and \<open>abcdef=1\<close> after the
  \<open>?\<close>, the second name is \<open>abc\<close>.
\<close>

theorem query_buffer_bound:
  "MAX_PARAM_LEN = 512
   \<and> fst (safe_strncpy src MAX_PARAM_LEN) = take 511 src
   \<and> (CHR ''?'' \<notin> set pre \<longrightarrow>
        extract_params (pre @ CHR ''?'' # q) = extract_params (pre @ CHR ''?'' # take 511 q))
   \<and> (CHR ''?'' \<notin> set pre \<and> length q = 511 \<longrightarrow>
        extract_params (pre @ CHR ''?'' # q @ beyond) = extract_params (pre @ CHR ''?'' # q))
   \<and> extract_params (''u?'' @ replicate 507 (CHR ''a'') @ ''&abcdef=1'')
        = [replicate 507 (CHR ''a''), ''abc'']"
proof (intro conjI impI)
  show "MAX_PARAM_LEN = 512"
    by (simp add: MAX_PARAM_LEN_def)
  show "fst (safe_strncpy src MAX_PARAM_LEN) = take 511 src"
    by (rule safe_strncpy_buffer)
  show "extract_params (pre @ CHR ''?'' # q) = extract_params (pre @ CHR ''?'' # take 511 q)"
    if "CHR ''?'' \<notin> set pre"
    using that by (simp add: extract_params_spec spec_parameters_query)
  show "extract_params (pre @ CHR ''?'' # q @ beyond) = extract_params (pre @ CHR ''?'' # q)"
    if "CHR ''?'' \<notin> set pre \<and> length q = 511"
    using that by (simp add: extract_params_spec spec_parameters_query)
  show "extract_params (''u?'' @ replicate 507 (CHR ''a'') @ ''&abcdef=1'')
        = [replicate 507 (CHR ''a''), ''abc'']"
    by code_simp
qed

theorem query_buffer_bound_witness:
  "CHR ''?'' \<notin> set ''u'' \<and> length (replicate 511 (CHR ''a'')) = 511
   \<and> extract_params (''u'' @ CHR ''?'' # replicate 511 (CHR ''a'') @ ''bc&d=1'')
       = extract_params (''u'' @ CHR ''?'' # replicate 511 (CHR ''a''))
   \<and> extract_params (''u'' @ CHR ''?'' # ''x=1'')
       = extract_params (''u'' @ CHR ''?'' # take 511 ''x=1'')"
proof -
  have h: "CHR ''?'' \<notin> set ''u''" and l: "length (replicate 511 (CHR ''a'')) = 511"
    by simp_all
  note a = query_buffer_bound [of "[]" "''u''" "replicate 511 (CHR ''a'')" "''bc&d=1''"]
  note b = query_buffer_bound [of "[]" "''u''" "''x=1''" "[]"]
  from a h l have "extract_params (''u'' @ CHR ''?'' # replicate 511 (CHR ''a'') @ ''bc&d=1'')
       = extract_params (''u'' @ CHR ''?'' # replicate 511 (CHR ''a''))"
    by blast
  moreover from b h have "extract_params (''u'' @ CHR ''?'' # ''x=1'')
       = extract_params (''u'' @ CHR ''?'' # take 511 ''x=1'')"
    by blast
  ultimately show ?thesis
    using h l by (simp only: simp_thms)
qed

section \<open>The page loop: the claims\<close>

text \<open>
  Claim C8. A row that is not an array, or is an array of fewer than four cells, or
  whose first cell is not a string, leaves every variable of the loop as it was: there
  is no error to count. The rows after it are processed from the state the rows before
  it left, so a well-formed row that follows is observed as if the malformed row were
  not there.
\<close>

theorem malformed_row_skipped:
  "(\<forall>cells. row \<noteq> JArray cells)
   \<or> (\<exists>cells. row = JArray cells \<and> (length cells < 4 \<or> (\<forall>s. cells ! 0 \<noteq> JString s)))
   \<longrightarrow>
     process_row st row = st
     \<and> process_rows st (before @ row # after) = process_rows (process_rows st before) after
     \<and> process_rows st
          (row # JArray (JString original # timestamp # statuscode # mimetype # extra) # after)
         = process_rows (observe st original (json_string_value mimetype)) after"
proof
  assume "(\<forall>cells. row \<noteq> JArray cells)
   \<or> (\<exists>cells. row = JArray cells \<and> (length cells < 4 \<or> (\<forall>s. cells ! 0 \<noteq> JString s)))"
  then have "row_fields row = None"
    by (rule row_fields_malformed)
  then have skip: "process_row st' row = st'" for st'
    by (simp add: process_row_def)
  have good: "process_row st (JArray (JString original # timestamp # statuscode # mimetype # extra))
      = observe st original (json_string_value mimetype)"
    by (simp add: process_row_def row_fields_wellformed)
  show "process_row st row = st
     \<and> process_rows st (before @ row # after) = process_rows (process_rows st before) after
     \<and> process_rows st
          (row # JArray (JString original # timestamp # statuscode # mimetype # extra) # after)
         = process_rows (observe st original (json_string_value mimetype)) after"
    by (simp add: skip good process_rows_append process_rows_Cons)
qed

theorem malformed_row_skipped_witness:
  "process_row initial_state (JArray [JString ''http://x.com/a'', JString ''2020'']) = initial_state
   \<and> process_row initial_state (JArray [JNull, JNull, JNull, JNull]) = initial_state
   \<and> process_row initial_state (JString ''http://x.com/a'') = initial_state
   \<and> endpoints (process_rows initial_state
        [JString ''http://x.com/a'',
         JArray [JString ''http://x.com/b'', JString ''2020'', JString ''200'',
                 JString ''text/html'']])
       = [\<lparr>url = ''http://x.com/b'', method = ''GET'', params = []\<rparr>]"
proof -
  let ?short = "JArray [JString ''http://x.com/a'', JString ''2020'']"
  let ?nostr = "JArray [JNull, JNull, JNull, JNull]"
  let ?noarr = "JString ''http://x.com/a''"
  have a: "(\<forall>cells. ?noarr \<noteq> JArray cells) \<or>
      (\<exists>cells. ?noarr = JArray cells \<and> (length cells < 4 \<or> (\<forall>s. cells ! 0 \<noteq> JString s)))"
    by simp
  have b: "(\<forall>cells. ?short \<noteq> JArray cells) \<or>
      (\<exists>cells. ?short = JArray cells \<and> (length cells < 4 \<or> (\<forall>s. cells ! 0 \<noteq> JString s)))"
    by simp
  have c: "(\<forall>cells. ?nostr \<noteq> JArray cells) \<or>
      (\<exists>cells. ?nostr = JArray cells \<and> (length cells < 4 \<or> (\<forall>s. cells ! 0 \<noteq> JString s)))"
    by simp
  note ta = malformed_row_skipped [of ?noarr initial_state "[]" "[]" "''http://x.com/b''"
      "JString ''2020''" "JString ''200''" "JString ''text/html''" "[]"]
  note tb = malformed_row_skipped [of ?short initial_state "[]" "[]" "''http://x.com/b''"
      "JString ''2020''" "JString ''200''" "JString ''text/html''" "[]"]
  note tc = malformed_row_skipped [of ?nostr initial_state "[]" "[]" "''http://x.com/b''"
      "JString ''2020''" "JString ''200''" "JString ''text/html''" "[]"]
  have obs: "endpoints (observe initial_state ''http://x.com/b''
        (json_string_value (JString ''text/html'')))
      = [\<lparr>url = ''http://x.com/b'', method = ''GET'', params = []\<rparr>]"
    by code_simp
  from ta a have "process_row initial_state ?noarr = initial_state"
    and "process_rows initial_state
          [?noarr, JArray [JString ''http://x.com/b'', JString ''2020'', JString ''200'',
                 JString ''text/html'']]
         = process_rows (observe initial_state ''http://x.com/b''
             (json_string_value (JString ''text/html''))) []"
    by blast+
  moreover from tb b have "process_row initial_state ?short = initial_state"
    by blast
  moreover from tc c have "process_row initial_state ?nostr = initial_state"
    by blast
  ultimately show ?thesis
    using obs by (simp only: process_rows_Nil simp_thms)
qed

text \<open>
  Claim C5. When the last row of a decoded page has no trailing cell (it is not an
  array, or it is the empty array), or the trailing cell is not a string, or is the
  empty string or the string null, no resume key is taken from the page and the loop
  ends with this page: the only request added to the log is the one that fetched the
  page, whatever responses the server would still give.
\<close>

theorem no_token_ends_pagination:
  "root \<noteq> [] \<and>
   ((\<forall>cells. last root \<noteq> JArray cells) \<or> last root = JArray []
    \<or> (\<exists>cells. last root = JArray cells \<and> cells \<noteq> [] \<and>
          ((\<forall>k. last cells \<noteq> JString k) \<or> last cells = JString []
           \<or> last cells = JString ''null'')))
   \<longrightarrow>
     next_resume_key root = None
     \<and> (\<exists>st'. fetch_loop (Payload (JArray root) # later) key st = Some st'
              \<and> requests st' = requests st @ [key]
              \<and> fetch_loop [Payload (JArray root)] key st = Some st')"
proof
  assume h: "root \<noteq> [] \<and>
   ((\<forall>cells. last root \<noteq> JArray cells) \<or> last root = JArray []
    \<or> (\<exists>cells. last root = JArray cells \<and> cells \<noteq> [] \<and>
          ((\<forall>k. last cells \<noteq> JString k) \<or> last cells = JString []
           \<or> last cells = JString ''null'')))"
  then have none: "next_resume_key root = None"
    by (intro next_resume_key_none) blast+
  define st1 where "st1 = st\<lparr>requests := requests st @ [key]\<rparr>"
  have "\<exists>st'. fetch_loop (Payload (JArray root) # later) key st = Some st'
              \<and> requests st' = requests st @ [key]
              \<and> fetch_loop [Payload (JArray root)] key st = Some st'"
  proof (cases "2 \<le> length root")
    case True
    then have "fetch_loop (Payload (JArray root) # rs) key st
        = Some (process_rows st1 (tl root))" for rs
      by (simp add: fetch_loop_page none st1_def del: fetch_loop.simps)
    moreover have "requests (process_rows st1 (tl root)) = requests st @ [key]"
      by (simp add: requests_process_rows st1_def)
    ultimately show ?thesis by blast
  next
    case False
    then have "fetch_loop (Payload (JArray root) # rs) key st = Some st1" for rs
      unfolding st1_def by (intro fetch_loop_break) auto
    moreover have "requests st1 = requests st @ [key]"
      by (simp add: st1_def)
    ultimately show ?thesis by blast
  qed
  with none show "next_resume_key root = None
     \<and> (\<exists>st'. fetch_loop (Payload (JArray root) # later) key st = Some st'
              \<and> requests st' = requests st @ [key]
              \<and> fetch_loop [Payload (JArray root)] key st = Some st')"
    by blast
qed

theorem no_token_ends_pagination_witness:
  "next_resume_key
     [JArray [JString ''original'', JString ''timestamp'', JString ''statuscode'',
              JString ''mimetype''],
      JArray [JString ''http://x.com/'', JString ''2020'', JString ''200'',
              JString ''text/html''],
      JArray [JString ''null'']] = None
   \<and> (\<exists>st'. fetch_loop
          [Payload (JArray
             [JArray [JString ''original'', JString ''timestamp'', JString ''statuscode'',
                      JString ''mimetype''],
              JArray [JString ''http://x.com/'', JString ''2020'', JString ''200'',
                      JString ''text/html''],
              JArray [JString ''null'']]),
           Payload (JArray
             [JArray [],
              JArray [JString ''http://x.com/more'', JString ''2020'', JString ''200'',
                      JString ''text/html'']])]
          None initial_state = Some st'
        \<and> requests st' = [None])"
proof -
  let ?root = "[JArray [JString ''original'', JString ''timestamp'', JString ''statuscode'',
              JString ''mimetype''],
      JArray [JString ''http://x.com/'', JString ''2020'', JString ''200'',
              JString ''text/html''],
      JArray [JString ''null'']]"
  let ?later = "[Payload (JArray
             [JArray [],
              JArray [JString ''http://x.com/more'', JString ''2020'', JString ''200'',
                      JString ''text/html'']])]"
  have "last ?root = JArray [JString ''null''] \<and> [JString ''null''] \<noteq> []
      \<and> last [JString ''null''] = JString ''null''"
    by simp
  then have h: "?root \<noteq> [] \<and>
   ((\<forall>cells. last ?root \<noteq> JArray cells) \<or> last ?root = JArray []
    \<or> (\<exists>cells. last ?root = JArray cells \<and> cells \<noteq> [] \<and>
          ((\<forall>k. last cells \<noteq> JString k) \<or> last cells = JString []
           \<or> last cells = JString ''null'')))"
    by blast
  have r: "requests initial_state @ [None] = [None]"
    by (simp add: initial_state_def)
  from no_token_ends_pagination [of ?root ?later None initial_state] h
  have "next_resume_key ?root = None
     \<and> (\<exists>st'. fetch_loop (Payload (JArray ?root) # ?later) None initial_state = Some st'
              \<and> requests st' = requests initial_state @ [None]
              \<and> fetch_loop [Payload (JArray ?root)] None initial_state = Some st')"
    by (rule mp)
  then show ?thesis
    unfolding r by blast
qed

text \<open>
  Claim C6. The first page gives the URLs A and B and ends with a row that holds a
  resume key. The second page gives B again and C and has no such row: its last row is
  the row of C. The loop reads the resume key from the trailing cell of the last row
  without asking whether that row is a row of its own for the key, so it takes the
  mimetype of C for a resume key and asks for a third page. With these two pages alone
  the loop does not end; when the server answers the third request with a page that
  holds a further URL D, the report has four records.
\<close>

theorem last_data_row_read_as_resume_key:
  "next_resume_key
     [JArray [JString ''original'', JString ''timestamp'', JString ''statuscode'',
              JString ''mimetype''],
      JArray [JString ''http://x.com/b'', JString ''2021'', JString ''200'',
              JString ''text/html''],
      JArray [JString ''http://x.com/c'', JString ''2021'', JString ''200'',
              JString ''text/html'']]
     = Some ''text/html''
   \<and> fetch_loop
       [Payload (JArray
          [JArray [JString ''original'', JString ''timestamp'', JString ''statuscode'',
                   JString ''mimetype''],
           JArray [JString ''http://x.com/a'', JString ''2019'', JString ''200'',
                   JString ''text/html''],
           JArray [JString ''http://x.com/b'', JString ''2019'', JString ''200'',
                   JString ''text/html''],
           JArray [],
           JArray [JString ''com,x)/b 2019'']]),
        Payload (JArray
          [JArray [JString ''original'', JString ''timestamp'', JString ''statuscode'',
                   JString ''mimetype''],
           JArray [JString ''http://x.com/b'', JString ''2021'', JString ''200'',
                   JString ''text/html''],
           JArray [JString ''http://x.com/c'', JString ''2021'', JString ''200'',
                   JString ''text/html'']])]
       None initial_state = None
   \<and> map_option requests (fetch_loop
       [Payload (JArray
          [JArray [JString ''original'', JString ''timestamp'', JString ''statuscode'',
                   JString ''mimetype''],
           JArray [JString ''http://x.com/a'', JString ''2019'', JString ''200'',
                   JString ''text/html''],
           JArray [JString ''http://x.com/b'', JString ''2019'', JString ''200'',
                   JString ''text/html''],
           JArray [],
           JArray [JString ''com,x)/b 2019'']]),
        Payload (JArray
          [JArray [JString ''original'', JString ''timestamp'', JString ''statuscode'',
                   JString ''mimetype''],
           JArray [JString ''http://x.com/b'', JString ''2021'', JString ''200'',
                   JString ''text/html''],
           JArray [JString ''http://x.com/c'', JString ''2021'', JString ''200'',
                   JString ''text/html'']]),
        Payload (JArray
          [JArray [JString ''original'', JString ''timestamp'', JString ''statuscode'',
                   JString ''mimetype''],
           JArray [JString ''http://x.com/d'', JString ''2022'', JString ''200'',
                   JNull]])]
       None initial_state)
     = Some [None, Some ''com,x)/b 2019'', Some ''text/html'']
   \<and> report_endpoints
       [Payload (JArray
          [JArray [JString ''original'', JString ''timestamp'', JString ''statuscode'',
                   JString ''mimetype''],
           JArray [JString ''http://x.com/a'', JString ''2019'', JString ''200'',
                   JString ''text/html''],
           JArray [JString ''http://x.com/b'', JString ''2019'', JString ''200'',
                   JString ''text/html''],
           JArray [],
           JArray [JString ''com,x)/b 2019'']]),
        Payload (JArray
          [JArray [JString ''original'', JString ''timestamp'', JString ''statuscode'',
                   JString ''mimetype''],
           JArray [JString ''http://x.com/b'', JString ''2021'', JString ''200'',
                   JString ''text/html''],
           JArray [JString ''http://x.com/c'', JString ''2021'', JString ''200'',
                   JString ''text/html'']]),
        Payload (JArray
          [JArray [JString ''original'', JString ''timestamp'', JString ''statuscode'',
                   JString ''mimetype''],
           JArray [JString ''http://x.com/d'', JString ''2022'', JString ''200'',
                   JNull]])]
       0
     = Some [\<lparr>url = ''http://x.com/a'', method = ''GET'', params = []\<rparr>,
             \<lparr>url = ''http://x.com/b'', method = ''GET'', params = []\<rparr>,
             \<lparr>url = ''http://x.com/c'', method = ''GET'', params = []\<rparr>,
             \<lparr>url = ''http://x.com/d'', method = ''GET'', params = []\<rparr>]"
  by code_simp

section \<open>Writing the report: the claim\<close>

text \<open>
  Claim C7. A record whose dump fails is left out and the loop goes on to the next
  record. The separator before a record is written when its index is above 0, not
  when a record was written before it: when the dump of the first record fails and
  the dump of the second succeeds, the text after the opening bracket starts with a
  comma. Here the server gives one page with two URLs, and the dump fails for the
  record that sorts first.
\<close>

theorem first_record_fails_leading_comma:
  "process_domain
     (\<lambda>e. if url e = ''http://x.com/a'' then None else Some ''{}'')
     [Payload (JArray
        [JArray [JString ''original'', JString ''timestamp'', JString ''statuscode'',
                 JString ''mimetype''],
         JArray [JString ''http://x.com/a'', JString ''2020'', JString ''200'', JNull],
         JArray [JString ''http://x.com/b'', JString ''2020'', JString ''200'', JNull]])]
     (Some ''x.com'') 0
   = Some (0, Some ([CHR ''['', CHR 0x0A, CHR '','', CHR 0x0A] @ ''{}'' @
                    [CHR 0x0A, CHR '']'', CHR 0x0A]))"
  by code_simp

end
